theory Spec2Isabelle
  imports Main "HOL-Library.Word" "HOL-Library.AList" "HOL-Library.Char_ord" "HOL-Library.List_Lexorder"
begin

section \<open>The error tree of go-errortree\<close>

text \<open>
  The package stores errors in \<^verbatim>\<open>*Tree\<close> values that refer to each other through pointers,
  so a tree may contain itself. The model therefore keeps the trees in an explicit store:
  a pointer is a machine word, \<open>nil\<close> is the word 0, and the heap maps the addresses of the
  allocated trees to their contents.

  A Go \<^verbatim>\<open>map[string]error\<close> is an association list. The order of the list stands for the
  order in which \<^verbatim>\<open>range\<close> happens to visit the entries, which Go leaves unspecified;
  every theorem below holds for every order. Strings are byte lists, ordered as
  \<^verbatim>\<open>sort.Strings\<close> orders them (bytewise, a proper prefix first).
\<close>

type_synonym addr = "64 word"

definition nil :: addr where
  "nil = 0"

text \<open>
  A non-nil value of the interface \<^verbatim>\<open>error\<close>: an error of some other type, of which only
  the message is kept, or a \<^verbatim>\<open>*Tree\<close> (possibly the nil pointer). The nil interface value is
  \<open>None\<close> of \<open>error option\<close>.
\<close>

datatype error = Plain string | TreePtr addr

text \<open>A panic: \<^verbatim>\<open>panic(msg)\<close> of the package, or the runtime's nil pointer dereference.\<close>

datatype panic = Panic string | NilDereference

type_synonym emap = "(string \<times> error) list"

type_synonym formatter = "emap \<Rightarrow> string"

record Tree =
  Errors :: "emap option"
  Delimiter :: string
  Formatter :: "formatter option"

type_synonym heap = "addr \<Rightarrow> Tree option"

definition DefaultDelimiter :: string where
  "DefaultDelimiter = '':''"

definition deref :: "heap \<Rightarrow> addr \<Rightarrow> Tree option" where
  "deref h t = (if t = nil then None else h t)"

subsection \<open>formatter.go\<close>

definition nl :: char where
  "nl = CHR 0x0A"

text \<open>\<^verbatim>\<open>%d\<close> of \<^verbatim>\<open>fmt.Sprintf\<close> on a length: the decimal digits, most significant first.\<close>

fun Sprintf_d :: "nat \<Rightarrow> string" where
  "Sprintf_d n =
     (if n < 10 then [char_of (48 + n)]
      else Sprintf_d (n div 10) @ [char_of (48 + n mod 10)])"

declare Sprintf_d.simps [simp del]

fun Join :: "string list \<Rightarrow> string \<Rightarrow> string" where
  "Join [] sep = []"
| "Join [x] sep = x"
| "Join (x # y # ys) sep = x @ sep @ Join (y # ys) sep"

text \<open>
  \<open>SimpleFormatter\<close> calls the method \<^verbatim>\<open>Error()\<close> of every value of the map. The method
  is dispatched dynamically, so the model takes it as the parameter \<open>msg\<close>. The line of a
  key is written at the key's index of \<^verbatim>\<open>wrappedErrors\<close>, as the loop does. Every key of
  \<open>keys\<close> is a key of the map, so the lookup never misses.
\<close>

definition SimpleFormatter :: "(error \<Rightarrow> string) \<Rightarrow> emap \<Rightarrow> string" where
  "SimpleFormatter msg errorMap =
     (let wrappedErrors = replicate (length errorMap) [];
          pluralSuffix = (if length errorMap \<noteq> 1 then ''s'' else []);
          keys = fold (\<lambda>(key, _) keys. keys @ [key]) errorMap [];
          keys = sort keys;
          wrappedErrors =
            fold (\<lambda>(i, key) w.
                    w[i := ''* '' @ key @ '': '' @
                           (case map_of errorMap key of Some e \<Rightarrow> msg e | None \<Rightarrow> [])])
                 (enumerate 0 keys) wrappedErrors
      in Sprintf_d (length errorMap) @ '' error'' @ pluralSuffix @ '' occurred:'' @ [nl, nl] @
         Join wrappedErrors [nl])"

text \<open>
  \<^verbatim>\<open>Error()\<close> of the values that a flattened map holds. Flattening only stores errors that
  are not trees (lemma \<open>flatten_values_plain\<close> below), whose message is their own. The
  function is not meant for a pointer to a tree, whose message would need the heap; only
  for the nil \<^verbatim>\<open>*Tree\<close> is the empty message the one of the code.
\<close>

fun Error_leaf :: "error \<Rightarrow> string" where
  "Error_leaf (Plain m) = m"
| "Error_leaf (TreePtr t) = []"

subsection \<open>tree.go\<close>

definition getErrors :: "heap \<Rightarrow> addr \<Rightarrow> (panic + emap) \<times> heap" where
  "getErrors h t =
     (case deref h t of
        None \<Rightarrow> (Inl NilDereference, h)
      | Some T \<Rightarrow>
          (case Errors T of
             None \<Rightarrow> (Inr [], h(t \<mapsto> T\<lparr>Errors := Some []\<rparr>))
           | Some errs \<Rightarrow> (Inr errs, h)))"

definition getDelimiter :: "heap \<Rightarrow> addr \<Rightarrow> (panic + string) \<times> heap" where
  "getDelimiter h t =
     (case deref h t of
        None \<Rightarrow> (Inl NilDereference, h)
      | Some T \<Rightarrow>
          (if Delimiter T = [] then
             (Inr DefaultDelimiter, h(t \<mapsto> T\<lparr>Delimiter := DefaultDelimiter\<rparr>))
           else (Inr (Delimiter T), h)))"

definition getFormatter :: "heap \<Rightarrow> addr \<Rightarrow> (panic + formatter) \<times> heap" where
  "getFormatter h t =
     (case deref h t of
        None \<Rightarrow> (Inl NilDereference, h)
      | Some T \<Rightarrow>
          (case Formatter T of
             None \<Rightarrow>
               (Inr (SimpleFormatter Error_leaf),
                h(t \<mapsto> T\<lparr>Formatter := Some (SimpleFormatter Error_leaf)\<rparr>))
           | Some f \<Rightarrow> (Inr f, h)))"

text \<open>
  \<open>New\<close> allocates. The address of the new tree is the allocator's choice and is a
  parameter of the model (\<open>fresh\<close>); Go guarantees that it is not nil and not the address
  of a live tree.
\<close>

definition New :: "addr \<Rightarrow> heap \<Rightarrow> addr \<times> heap" where
  "New fresh h =
     (fresh, h(fresh \<mapsto> \<lparr>Errors = Some [], Delimiter = DefaultDelimiter,
                          Formatter = Some (SimpleFormatter Error_leaf)\<rparr>))"

fun GetTree :: "error option \<Rightarrow> addr \<times> bool" where
  "GetTree None = (nil, False)"
| "GetTree (Some (Plain m)) = (nil, False)"
| "GetTree (Some (TreePtr t)) = (t, True)"

subsection \<open>errortree.go\<close>

text \<open>The measure of \<open>flatten\<close>: the addresses that are not on the path of trees entered.\<close>

definition unvisited :: "addr list \<Rightarrow> nat" where
  "unvisited visited = card (UNIV - set visited)"

text \<open>
  \<open>flatten\<close>, with the loop over the tree's entries as \<open>flatten_range\<close>: its last two
  arguments are the entries still to visit and \<^verbatim>\<open>errorMap\<close> so far. \<^verbatim>\<open>append(visited, tree)\<close>
  gives every call its own list: a callee reads only the part of the slice that its caller
  passed, so the shared backing array of the Go slices is never observed. The map that a
  call returns is read in the order in which it was built; the keys that one child adds are
  distinct, so this order has no effect on the entries of the result.
\<close>

function flatten :: "heap \<Rightarrow> addr \<Rightarrow> string \<Rightarrow> addr list \<Rightarrow> string list \<Rightarrow> (panic + emap) \<times> heap"
  and flatten_range :: "heap \<Rightarrow> string \<Rightarrow> addr list \<Rightarrow> string list \<Rightarrow> emap \<Rightarrow> emap \<Rightarrow> (panic + emap) \<times> heap"
where
  "flatten h tree delimiter visited keyPrefix =
     (if tree \<in> set visited then (Inr [], h)
      else
        (case getErrors h tree of
           (Inl p, h1) \<Rightarrow> (Inl p, h1)
         | (Inr errors, h1) \<Rightarrow> flatten_range h1 delimiter (visited @ [tree]) keyPrefix errors []))"
| "flatten_range h delimiter visited keyPrefix [] errorMap = (Inr errorMap, h)"
| "flatten_range h delimiter visited keyPrefix ((key, err) # rest) errorMap =
     (case GetTree (Some err) of
        (childTree, True) \<Rightarrow>
          (case flatten h childTree delimiter visited (keyPrefix @ [key]) of
             (Inl p, h1) \<Rightarrow> (Inl p, h1)
           | (Inr childMap, h1) \<Rightarrow>
               flatten_range h1 delimiter visited keyPrefix rest
                 (fold (\<lambda>(childKey, childErr). AList.update (key @ delimiter @ childKey) childErr)
                    childMap errorMap))
      | (childTree, False) \<Rightarrow>
          flatten_range h delimiter visited keyPrefix rest (AList.update key err errorMap))"
  by pat_completeness auto

termination
proof -
  have less: "unvisited (visited @ [tree]) < unvisited visited" if "tree \<notin> set visited"
    for tree :: addr and visited
    unfolding unvisited_def using that by (intro psubset_card_mono) auto
  show ?thesis
    by (relation "inv_image (measure id <*lex*> measure id)
         (\<lambda>x. case x of
            Inl (h, tree, delimiter, visited, keyPrefix) \<Rightarrow> (unvisited visited, 0)
          | Inr (h, delimiter, visited, keyPrefix, rest, errorMap) \<Rightarrow>
              (unvisited visited, Suc (length rest)))")
      (auto simp: less)
qed

definition Flatten :: "heap \<Rightarrow> error option \<Rightarrow> (panic + emap option) \<times> heap" where
  "Flatten h err =
     (case GetTree err of
        (tree, False) \<Rightarrow> (Inr None, h)
      | (tree, True) \<Rightarrow>
          (case getDelimiter h tree of
             (Inl p, h1) \<Rightarrow> (Inl p, h1)
           | (Inr delimiter, h1) \<Rightarrow>
               (case flatten h1 tree delimiter [] [] of
                  (Inl p, h2) \<Rightarrow> (Inl p, h2)
                | (Inr flattened, h2) \<Rightarrow> (Inr (Some flattened), h2))))"

definition Keys :: "heap \<Rightarrow> error option \<Rightarrow> (panic + string list option) \<times> heap" where
  "Keys h err =
     (case GetTree err of
        (tree, False) \<Rightarrow> (Inr None, h)
      | (tree, True) \<Rightarrow>
          (case getDelimiter h tree of
             (Inl p, h1) \<Rightarrow> (Inl p, h1)
           | (Inr delimiter, h1) \<Rightarrow>
               (case flatten h1 tree delimiter [] [] of
                  (Inl p, h2) \<Rightarrow> (Inl p, h2)
                | (Inr flattened, h2) \<Rightarrow>
                    (let keys = fold (\<lambda>(key, _) keys. keys @ [key]) flattened []
                     in (Inr (Some (sort keys)), h2)))))"

text \<open>\<^verbatim>\<open>errors[key] = err\<close> on the map of the tree at \<open>t\<close>.\<close>

definition store_errors :: "heap \<Rightarrow> addr \<Rightarrow> emap \<Rightarrow> heap" where
  "store_errors h t errs = (case h t of None \<Rightarrow> h | Some T \<Rightarrow> h(t \<mapsto> T\<lparr>Errors := Some errs\<rparr>))"

definition set_tree :: "addr \<Rightarrow> heap \<Rightarrow> addr \<Rightarrow> string \<Rightarrow> error option \<Rightarrow> (panic + addr) \<times> heap" where
  "set_tree fresh h tree key err =
     (case err of
        None \<Rightarrow> (Inr tree, h)
      | Some e \<Rightarrow>
          (let (tree, h0) = (if tree = nil then New fresh h else (tree, h)) in
           (case getErrors h0 tree of
              (Inl p, h1) \<Rightarrow> (Inl p, h1)
            | (Inr errors, h1) \<Rightarrow> (Inr tree, store_errors h1 tree (AList.update key e errors)))))"

definition Set :: "addr \<Rightarrow> heap \<Rightarrow> error option \<Rightarrow> string \<Rightarrow> error option \<Rightarrow> (panic + error option) \<times> heap" where
  "Set fresh h parent key err =
     (case GetTree parent of
        (tree, isTree) \<Rightarrow>
          (if parent \<noteq> None \<and> \<not> isTree then
             (Inl (Panic ''Cannot set error: not an *errortree.Tree.''), h)
           else
             (case set_tree fresh h tree key err of
                (Inl p, h1) \<Rightarrow> (Inl p, h1)
              | (Inr tree, h1) \<Rightarrow>
                  (if tree \<noteq> nil then (Inr (Some (TreePtr tree)), h1) else (Inr None, h1)))))"

definition Add :: "addr \<Rightarrow> heap \<Rightarrow> error option \<Rightarrow> string \<Rightarrow> error option \<Rightarrow> (panic + error option) \<times> heap" where
  "Add fresh h parent key err =
     (case GetTree parent of
        (tree, isTree) \<Rightarrow>
          (case (if tree \<noteq> nil \<and> isTree then
                   (case getErrors h tree of
                      (Inl p, h0) \<Rightarrow> (Some p, h0)
                    | (Inr errors, h0) \<Rightarrow>
                        (if map_of errors key \<noteq> None then
                           (Some (Panic (''Cannot add error: key '' @ key @ '' exists.'')), h0)
                         else (None, h0)))
                 else (None, h)) of
             (Some p, h0) \<Rightarrow> (Inl p, h0)
           | (None, h0) \<Rightarrow>
               (case set_tree fresh h0 tree key err of
                  (Inl p, h1) \<Rightarrow> (Inl p, h1)
                | (Inr tree, h1) \<Rightarrow>
                    (if tree \<noteq> nil then (Inr (Some (TreePtr tree)), h1) else (Inr None, h1)))))"

fun get :: "heap \<Rightarrow> addr \<Rightarrow> bool \<Rightarrow> string \<Rightarrow> string list \<Rightarrow> (panic + error option) \<times> heap" where
  "get h tree returnAnyChild key path =
     (case getErrors h tree of
        (Inl p, h1) \<Rightarrow> (Inl p, h1)
      | (Inr errors, h1) \<Rightarrow>
          (case map_of errors key of
             None \<Rightarrow> (Inr None, h1)
           | Some child \<Rightarrow>
               (case path of
                  [] \<Rightarrow> (Inr (Some child), h1)
                | path0 # path1 \<Rightarrow>
                    (case GetTree (Some child) of
                       (childTree, isTree) \<Rightarrow>
                         (if \<not> isTree \<and> returnAnyChild then (Inr (Some child), h1)
                          else if \<not> isTree then (Inr None, h1)
                          else
                            (case get h1 childTree returnAnyChild path0 path1 of
                               (Inl p, h2) \<Rightarrow> (Inl p, h2)
                             | (Inr childErr, h2) \<Rightarrow>
                                 (if childErr = None \<and> returnAnyChild then (Inr (Some child), h2)
                                  else (Inr childErr, h2))))))))"

definition Get :: "heap \<Rightarrow> error option \<Rightarrow> string \<Rightarrow> string list \<Rightarrow> (panic + error option) \<times> heap" where
  "Get h err key path =
     (case GetTree err of
        (tree, False) \<Rightarrow> (Inr None, h)
      | (tree, True) \<Rightarrow> get h tree False key path)"

definition GetAny :: "heap \<Rightarrow> error option \<Rightarrow> string \<Rightarrow> string list \<Rightarrow> (panic + error option) \<times> heap" where
  "GetAny h err key path =
     (case GetTree err of
        (tree, False) \<Rightarrow> (Inr err, h)
      | (tree, True) \<Rightarrow> get h tree True key path)"

text \<open>The method \<^verbatim>\<open>(*Tree).Error\<close> of tree.go; it needs \<open>flatten\<close>.\<close>

definition Tree_Error :: "heap \<Rightarrow> addr \<Rightarrow> (panic + string) \<times> heap" where
  "Tree_Error h t =
     (if t = nil then (Inr [], h)
      else
        (case getFormatter h t of
           (Inl p, h1) \<Rightarrow> (Inl p, h1)
         | (Inr formatter, h1) \<Rightarrow>
             (case getDelimiter h1 t of
                (Inl p, h2) \<Rightarrow> (Inl p, h2)
              | (Inr delimiter, h2) \<Rightarrow>
                  (case flatten h2 t delimiter [] [] of
                     (Inl p, h3) \<Rightarrow> (Inl p, h3)
                   | (Inr flattened, h3) \<Rightarrow> (Inr (formatter flattened), h3)))))"

section \<open>Notions for stating the properties\<close>

subsection \<open>Heaps\<close>

text \<open>
  The entries of the tree at an address, as \<^verbatim>\<open>range\<close> sees them: none for a nil map.
\<close>

definition children :: "heap \<Rightarrow> addr \<Rightarrow> emap" where
  "children h a =
     (case deref h a of None \<Rightarrow> [] | Some T \<Rightarrow> (case Errors T of None \<Rightarrow> [] | Some es \<Rightarrow> es))"

text \<open>
  Go has no dangling pointers, but a \<^verbatim>\<open>*Tree\<close> stored as an entry may be nil, and the code
  panics when it follows one. In a closed heap every tree pointer among the entries points
  to a tree.
\<close>

definition closed_heap :: "heap \<Rightarrow> bool" where
  "closed_heap h = (\<forall>a k c. (k, TreePtr c) \<in> set (children h a) \<longrightarrow> deref h c \<noteq> None)"

text \<open>
  \<open>errors_init h h'\<close>: the heap \<open>h'\<close> is \<open>h\<close>, but for trees whose nil map of entries has
  become the empty map (what \<open>getErrors\<close> does to a tree).
\<close>

definition init_errors :: "Tree \<Rightarrow> Tree" where
  "init_errors T = (if Errors T = None then T\<lparr>Errors := Some []\<rparr> else T)"

definition errors_init :: "heap \<Rightarrow> heap \<Rightarrow> bool" where
  "errors_init h h' = (\<forall>a. h' a = h a \<or> h' a = map_option init_errors (h a))"

text \<open>
  What lazy initialisation may do to a tree: the formatter stays; the map of entries stays,
  or was nil and is now the empty map; the delimiter stays, or (only in the tree on which
  \<open>Flatten\<close> or \<open>Keys\<close> is called, the root) was empty and is now the default delimiter.
  \<open>lazy_init root h h'\<close>: the heaps hold trees at the same addresses, and every tree of
  \<open>h'\<close> is so related to the tree of \<open>h\<close>. In an initialised heap every tree has a map
  of entries and a delimiter.
\<close>

definition tree_init :: "bool \<Rightarrow> Tree \<Rightarrow> Tree \<Rightarrow> bool" where
  "tree_init root T T' \<longleftrightarrow>
     Formatter T' = Formatter T \<and>
     (Errors T' = Errors T \<or> Errors T = None \<and> Errors T' = Some []) \<and>
     (Delimiter T' = Delimiter T \<or> root \<and> Delimiter T = [] \<and> Delimiter T' = DefaultDelimiter)"

definition lazy_init :: "addr option \<Rightarrow> heap \<Rightarrow> heap \<Rightarrow> bool" where
  "lazy_init root h h' \<longleftrightarrow> (\<forall>a. rel_option (tree_init (root = Some a)) (h a) (h' a))"

definition initialised :: "heap \<Rightarrow> bool" where
  "initialised h \<longleftrightarrow> (\<forall>a T. h a = Some T \<longrightarrow> Errors T \<noteq> None \<and> Delimiter T \<noteq> [])"

definition root_of :: "error option \<Rightarrow> addr option" where
  "root_of err = (case GetTree err of (tree, True) \<Rightarrow> Some tree | (tree, False) \<Rightarrow> None)"

text \<open>
  Two heaps have the same shape when they hold trees at the same addresses with the same
  entries. \<open>same_but_nested_delimiters t h h'\<close>: the heap \<open>h'\<close> is \<open>h\<close> with other delimiters
  in trees other than the one at \<open>t\<close>.
\<close>

definition shape :: "heap \<Rightarrow> heap \<Rightarrow> bool" where
  "shape h h' \<longleftrightarrow> children h' = children h \<and> (\<forall>a. (deref h' a = None) = (deref h a = None))"

definition same_but_nested_delimiters :: "addr \<Rightarrow> heap \<Rightarrow> heap \<Rightarrow> bool" where
  "same_but_nested_delimiters t h h' \<longleftrightarrow>
     h' t = h t \<and>
     (\<forall>a. rel_option (\<lambda>T T'. Errors T' = Errors T \<and> Formatter T' = Formatter T) (h a) (h' a))"

text \<open>
  The delimiter and the formatter that \<open>getDelimiter\<close> and \<open>getFormatter\<close> return for a
  tree.
\<close>

definition delimiter_of :: "Tree \<Rightarrow> string" where
  "delimiter_of T = (if Delimiter T = [] then DefaultDelimiter else Delimiter T)"

definition formatter_of :: "Tree \<Rightarrow> formatter" where
  "formatter_of T = (case Formatter T of None \<Rightarrow> SimpleFormatter Error_leaf | Some f \<Rightarrow> f)"

subsection \<open>Leaves and their paths\<close>

text \<open>
  \<open>leafpath ch V t ks e\<close>: from the tree at \<open>t\<close>, the keys \<open>ks\<close> lead to the leaf \<open>e\<close>
  through trees that are pairwise different and not in \<open>V\<close>; \<open>ch\<close> gives the entries of
  every tree. \<open>rangepath\<close> is the same from a list of entries. These are the leaves that
  can be reached without entering a tree that is already on the path.
\<close>

inductive leafpath :: "(addr \<Rightarrow> emap) \<Rightarrow> addr set \<Rightarrow> addr \<Rightarrow> string list \<Rightarrow> error \<Rightarrow> bool"
  and rangepath :: "(addr \<Rightarrow> emap) \<Rightarrow> addr set \<Rightarrow> emap \<Rightarrow> string list \<Rightarrow> error \<Rightarrow> bool"
  for ch :: "addr \<Rightarrow> emap"
where
  enter: "t \<notin> V \<Longrightarrow> rangepath ch (insert t V) (ch t) ks e \<Longrightarrow> leafpath ch V t ks e"
| leaf: "(k, Plain m) \<in> set rest \<Longrightarrow> rangepath ch V rest [k] (Plain m)"
| sub: "(k, TreePtr c) \<in> set rest \<Longrightarrow> leafpath ch V c ks e \<Longrightarrow> rangepath ch V rest (k # ks) e"

text \<open>
  What the result \<open>m\<close> of flattening is, in terms of these paths: its keys are distinct,
  every entry is a leaf at the end of a path, under the joined path, and the joined path
  of every leaf is a key. \<open>range_ok\<close> says the same of the loop, which starts from the map
  \<open>acc\<close>.
\<close>

definition flat_ok :: "(addr \<Rightarrow> emap) \<Rightarrow> string \<Rightarrow> addr set \<Rightarrow> addr \<Rightarrow> emap \<Rightarrow> bool" where
  "flat_ok ch d V t m \<longleftrightarrow>
     distinct (map fst m) \<and>
     (\<forall>p e. map_of m p = Some e \<longrightarrow> (\<exists>ks. leafpath ch V t ks e \<and> p = Join ks d)) \<and>
     (\<forall>ks e. leafpath ch V t ks e \<longrightarrow> Join ks d \<in> fst ` set m)"

definition range_ok :: "(addr \<Rightarrow> emap) \<Rightarrow> string \<Rightarrow> addr set \<Rightarrow> emap \<Rightarrow> emap \<Rightarrow> emap \<Rightarrow> bool" where
  "range_ok ch d V rest acc m \<longleftrightarrow>
     (distinct (map fst acc) \<longrightarrow> distinct (map fst m)) \<and>
     (\<forall>p e. map_of m p = Some e \<longrightarrow>
        map_of acc p = Some e \<or> (\<exists>ks. rangepath ch V rest ks e \<and> p = Join ks d)) \<and>
     (\<forall>p. p \<in> fst ` set m \<longleftrightarrow>
        p \<in> fst ` set acc \<or> (\<exists>ks e. rangepath ch V rest ks e \<and> p = Join ks d))"

text \<open>
  A map without tree pointers among its values.
\<close>

definition plain_values :: "emap \<Rightarrow> bool" where
  "plain_values m \<longleftrightarrow> (\<forall>k a. (k, TreePtr a) \<notin> set m)"

subsection \<open>The trees that one call enters\<close>

text \<open>
  \<open>treepath ch V t ks a\<close>: from the tree at \<open>t\<close>, the keys \<open>ks\<close> lead to the tree at \<open>a\<close>
  through trees that are pairwise different and not in \<open>V\<close>. The empty path leads from a
  tree to itself.
\<close>

inductive treepath :: "(addr \<Rightarrow> emap) \<Rightarrow> addr set \<Rightarrow> addr \<Rightarrow> string list \<Rightarrow> addr \<Rightarrow> bool"
  for ch :: "addr \<Rightarrow> emap"
where
  here: "t \<notin> V \<Longrightarrow> treepath ch V t [] t"
| step: "t \<notin> V \<Longrightarrow> (k, TreePtr c) \<in> set (ch t) \<Longrightarrow> treepath ch (insert t V) c ks a \<Longrightarrow>
         treepath ch V t (k # ks) a"

text \<open>
  \<open>flatten_log\<close> is \<open>flatten\<close> with a log: the same equations, and beside the result the
  list of the trees that the call enters, each with the \<^verbatim>\<open>keyPrefix\<close> of the call that
  enters it, in the order of entering. A call enters its tree when the tree passes the
  check against \<open>visited\<close>. Lemma \<open>flatten_log_erase\<close> shows that the first component is
  \<open>flatten\<close>; \<open>entered\<close> is the second.
\<close>

function flatten_log :: "heap \<Rightarrow> addr \<Rightarrow> string \<Rightarrow> addr list \<Rightarrow> string list \<Rightarrow>
    ((panic + emap) \<times> heap) \<times> (string list \<times> addr) list"
  and flatten_range_log :: "heap \<Rightarrow> string \<Rightarrow> addr list \<Rightarrow> string list \<Rightarrow> emap \<Rightarrow> emap \<Rightarrow>
    ((panic + emap) \<times> heap) \<times> (string list \<times> addr) list"
where
  "flatten_log h tree delimiter visited keyPrefix =
     (if tree \<in> set visited then ((Inr [], h), [])
      else
        (case getErrors h tree of
           (Inl p, h1) \<Rightarrow> ((Inl p, h1), [(keyPrefix, tree)])
         | (Inr errors, h1) \<Rightarrow>
             (case flatten_range_log h1 delimiter (visited @ [tree]) keyPrefix errors [] of
                (r, log) \<Rightarrow> (r, (keyPrefix, tree) # log))))"
| "flatten_range_log h delimiter visited keyPrefix [] errorMap = ((Inr errorMap, h), [])"
| "flatten_range_log h delimiter visited keyPrefix ((key, err) # rest) errorMap =
     (case GetTree (Some err) of
        (childTree, True) \<Rightarrow>
          (case flatten_log h childTree delimiter visited (keyPrefix @ [key]) of
             ((Inl p, h1), log) \<Rightarrow> ((Inl p, h1), log)
           | ((Inr childMap, h1), log) \<Rightarrow>
               (case flatten_range_log h1 delimiter visited keyPrefix rest
                       (fold (\<lambda>(childKey, childErr). AList.update (key @ delimiter @ childKey) childErr)
                          childMap errorMap) of
                  (r, log') \<Rightarrow> (r, log @ log')))
      | (childTree, False) \<Rightarrow>
          flatten_range_log h delimiter visited keyPrefix rest (AList.update key err errorMap))"
  by pat_completeness auto
termination
proof -
  have less: "unvisited (visited @ [tree]) < unvisited visited" if "tree \<notin> set visited"
    for tree :: addr and visited
    unfolding unvisited_def using that by (intro psubset_card_mono) auto
  show ?thesis
    by (relation "inv_image (measure id <*lex*> measure id)
         (\<lambda>x. case x of
            Inl (h, tree, delimiter, visited, keyPrefix) \<Rightarrow> (unvisited visited, 0)
          | Inr (h, delimiter, visited, keyPrefix, rest, errorMap) \<Rightarrow>
              (unvisited visited, Suc (length rest)))")
      (auto simp: less)
qed

definition entered :: "heap \<Rightarrow> addr \<Rightarrow> string \<Rightarrow> addr list \<Rightarrow> string list \<Rightarrow> (string list \<times> addr) list" where
  "entered h tree delimiter visited keyPrefix = snd (flatten_log h tree delimiter visited keyPrefix)"

text \<open>
  In a Go map the keys are distinct. What the log of a call is, in terms of the paths to
  trees: a tree is in the log under a key prefix exactly when the keys after the prefix of
  the call are a path to it, and nothing is in the log twice when keys are distinct.
  \<open>range_log_ok\<close> says the same of the loop.
\<close>

definition distinct_keys :: "(addr \<Rightarrow> emap) \<Rightarrow> bool" where
  "distinct_keys ch \<longleftrightarrow> (\<forall>a. distinct (map fst (ch a)))"

definition log_ok :: "(addr \<Rightarrow> emap) \<Rightarrow> addr set \<Rightarrow> string list \<Rightarrow> addr \<Rightarrow> (string list \<times> addr) list \<Rightarrow> bool" where
  "log_ok ch V kp t log \<longleftrightarrow>
     (\<forall>kp' a. (kp', a) \<in> set log \<longleftrightarrow> (\<exists>ks. kp' = kp @ ks \<and> treepath ch V t ks a)) \<and>
     (distinct_keys ch \<longrightarrow> distinct log)"

definition range_log_ok :: "(addr \<Rightarrow> emap) \<Rightarrow> addr set \<Rightarrow> string list \<Rightarrow> emap \<Rightarrow> (string list \<times> addr) list \<Rightarrow> bool" where
  "range_log_ok ch V kp rest log \<longleftrightarrow>
     (\<forall>kp' a. (kp', a) \<in> set log \<longleftrightarrow>
        (\<exists>k c ks. (k, TreePtr c) \<in> set rest \<and> kp' = kp @ k # ks \<and> treepath ch V c ks a)) \<and>
     (distinct_keys ch \<and> distinct (map fst rest) \<longrightarrow> distinct log)"

subsection \<open>The values on a path\<close>

text \<open>
  Following the spec's words: \<open>Get\<close> and \<open>GetAny\<close> resolve the key and then each element
  of the path, from the tree at \<open>t\<close>. \<open>found\<close> lists the values found on the way, in order;
  the walk stops where a key is absent from the current tree, or where the value is a
  leaf.
\<close>

fun found :: "(addr \<Rightarrow> emap) \<Rightarrow> addr \<Rightarrow> string list \<Rightarrow> error list" where
  "found ch t [] = []"
| "found ch t (k # ks) =
     (case map_of (ch t) k of
        None \<Rightarrow> []
      | Some c \<Rightarrow> c # (case c of TreePtr t' \<Rightarrow> found ch t' ks | Plain m \<Rightarrow> []))"

subsection \<open>Decimal numbers\<close>

text \<open>
  The number that a string of decimal digits denotes.
\<close>

definition decimal_value :: "string \<Rightarrow> nat" where
  "decimal_value s = foldl (\<lambda>a c. 10 * a + (of_char c - 48)) 0 s"

section \<open>Trees of the package's tests\<close>

text \<open>
  A tree written as a literal \<^verbatim>\<open>&Tree{Errors: es, Delimiter: d}\<close>, and heaps with the trees
  that the tests of tree.go and errortree.go build: the nested trees of TestGet and
  TestKeys, the multi-level tree and the two recursive trees of TestFlatten, and the zero
  value \<^verbatim>\<open>&Tree{}\<close> of TestNew. The others are a tree with two colliding paths (in both
  orders of its entries, and with a reference to itself) and a tree shared under two keys.
\<close>

definition literal :: "emap \<Rightarrow> string \<Rightarrow> Tree" where
  "literal es d = \<lparr>Errors = Some es, Delimiter = d, Formatter = None\<rparr>"

definition h_empty :: heap where
  "h_empty = (\<lambda>a. None)"

definition h_nested :: heap where
  "h_nested = h_empty(1 \<mapsto> literal [(''a'', Plain ''test0''), (''c'', TreePtr 2)] ''.'',
                      2 \<mapsto> literal [(''a'', Plain ''test1'')] [])"

definition h_keys :: heap where
  "h_keys = h_empty(1 \<mapsto> literal [(''a'', Plain ''test0''), (''b'', Plain ''test1''), (''c'', TreePtr 2)] ''.'',
                    2 \<mapsto> literal [(''a'', Plain ''test2''), (''b'', Plain ''test3'')] ''/'')"

definition h_multi :: heap where
  "h_multi =
     h_empty(1 \<mapsto> literal [(''a'', Plain ''test0''), (''b'', TreePtr 2), (''c'', TreePtr 3)] ''.'',
             2 \<mapsto> literal [(''ba'', Plain ''test1''), (''bb'', Plain ''test2'')] '':'',
             3 \<mapsto> literal [(''ca'', TreePtr 4), (''cb'', Plain ''test5'')] ''!'',
             4 \<mapsto> literal [(''caa'', Plain ''test3''), (''cab'', Plain ''test4'')] ''-'')"

definition h_multi_dots :: heap where
  "h_multi_dots =
     h_empty(1 \<mapsto> literal [(''a'', Plain ''test0''), (''b'', TreePtr 2), (''c'', TreePtr 3)] ''.'',
             2 \<mapsto> literal [(''ba'', Plain ''test1''), (''bb'', Plain ''test2'')] ''.'',
             3 \<mapsto> literal [(''ca'', TreePtr 4), (''cb'', Plain ''test5'')] ''.'',
             4 \<mapsto> literal [(''caa'', Plain ''test3''), (''cab'', Plain ''test4'')] ''.'')"

definition h_mutual :: heap where
  "h_mutual = h_empty(1 \<mapsto> literal [(''a'', Plain ''test0''), (''b'', TreePtr 2)] ''.'',
                      2 \<mapsto> literal [(''c'', TreePtr 1)] ''.'')"

definition h_zero :: heap where
  "h_zero = h_empty(1 \<mapsto> \<lparr>Errors = None, Delimiter = [], Formatter = None\<rparr>)"

definition h_collide :: heap where
  "h_collide = h_empty(1 \<mapsto> literal [(''a:b'', Plain ''outer''), (''a'', TreePtr 2)] '':'',
                       2 \<mapsto> literal [(''b'', Plain ''inner'')] '':'')"

definition h_collide' :: heap where
  "h_collide' = h_empty(1 \<mapsto> literal [(''a'', TreePtr 2), (''a:b'', Plain ''outer'')] '':'',
                        2 \<mapsto> literal [(''b'', Plain ''inner'')] '':'')"

definition h_cycle_collide :: heap where
  "h_cycle_collide =
     h_empty(1 \<mapsto> literal [(''a'', TreePtr 2), (''a:b'', Plain ''outer''), (''self'', TreePtr 1)] '':'',
             2 \<mapsto> literal [(''b'', Plain ''inner'')] '':'')"

definition h_cycle_collide' :: heap where
  "h_cycle_collide' =
     h_empty(1 \<mapsto> literal [(''a:b'', Plain ''outer''), (''self'', TreePtr 1), (''a'', TreePtr 2)] '':'',
             2 \<mapsto> literal [(''b'', Plain ''inner'')] '':'')"

definition h_dag :: heap where
  "h_dag = h_empty(1 \<mapsto> literal [(''x'', TreePtr 2), (''y'', TreePtr 2)] ''.'',
                   2 \<mapsto> literal [(''l'', Plain ''leaf'')] ''.'')"

section \<open>Lemmas\<close>

declare flatten.simps [simp del]
declare get.simps [simp del]
declare flatten_log.simps [simp del]

subsection \<open>The heap under the read traversals\<close>

lemma init_errors_idem: "init_errors (init_errors T) = init_errors T"
  by (simp add: init_errors_def)

lemma errors_init_refl: "errors_init h h"
  by (simp add: errors_init_def)

lemma errors_init_trans:
  assumes "errors_init h1 h2" and "errors_init h2 h3"
  shows "errors_init h1 h3"
  unfolding errors_init_def
proof
  fix a
  from assms have a: "h2 a = h1 a \<or> h2 a = map_option init_errors (h1 a)"
    and b: "h3 a = h2 a \<or> h3 a = map_option init_errors (h2 a)"
    by (simp_all add: errors_init_def)
  from a b show "h3 a = h1 a \<or> h3 a = map_option init_errors (h1 a)"
    by (cases "h1 a") (auto simp: init_errors_idem)
qed

lemma getErrors_frame: "errors_init h (snd (getErrors h t))"
  by (auto simp: getErrors_def errors_init_def init_errors_def deref_def split: option.splits)

lemma errors_init_children: "errors_init h h' \<Longrightarrow> children h' = children h"
proof
  fix a
  assume "errors_init h h'"
  then have "h' a = h a \<or> h' a = map_option init_errors (h a)"
    by (simp add: errors_init_def)
  then show "children h' a = children h a"
    by (cases "h a") (auto simp: children_def deref_def init_errors_def)
qed

lemma errors_init_deref: "errors_init h h' \<Longrightarrow> (deref h' a = None) = (deref h a = None)"
proof -
  assume "errors_init h h'"
  then have "h' a = h a \<or> h' a = map_option init_errors (h a)"
    by (simp add: errors_init_def)
  then show ?thesis by (cases "h a") (auto simp: deref_def)
qed

lemma flatten_frame:
  "errors_init h (snd (flatten h tree d visited kp))"
  "errors_init h (snd (flatten_range h d visited kp rest acc))"
proof (induction h tree d visited kp and h d visited kp rest acc rule: flatten_flatten_range.induct)
  case (1 h tree delimiter visited keyPrefix)
  show ?case
  proof (cases "tree \<in> set visited")
    case True
    then show ?thesis by (simp add: flatten.simps errors_init_refl)
  next
    case False
    obtain x h1 where g: "getErrors h tree = (x, h1)" by (cases "getErrors h tree")
    have f1: "errors_init h h1" using getErrors_frame [of h tree] g by simp
    show ?thesis
    proof (cases x)
      case (Inl p)
      with False g f1 show ?thesis by (simp add: flatten.simps)
    next
      case (Inr errors)
      have "errors_init h1 (snd (flatten_range h1 delimiter (visited @ [tree]) keyPrefix errors []))"
        using "1.IH" [OF False g [symmetric] Inr] .
      with f1 have "errors_init h (snd (flatten_range h1 delimiter (visited @ [tree]) keyPrefix errors []))"
        by (rule errors_init_trans)
      with False g Inr show ?thesis by (simp add: flatten.simps)
    qed
  qed
next
  case (2 h delimiter visited keyPrefix errorMap)
  show ?case by (simp add: errors_init_refl)
next
  case (3 h delimiter visited keyPrefix key err rest errorMap)
  show ?case
  proof (cases err)
    case (Plain m)
    then show ?thesis using "3.IH"(3) [of nil False] by simp
  next
    case (TreePtr c)
    obtain x h1 where f: "flatten h c delimiter visited (keyPrefix @ [key]) = (x, h1)"
      by (cases "flatten h c delimiter visited (keyPrefix @ [key])")
    have g: "(c, True) = GetTree (Some err)" using TreePtr by simp
    have f1: "errors_init h h1" using "3.IH"(1) [OF g refl] f by simp
    show ?thesis
    proof (cases x)
      case (Inl p)
      with TreePtr f f1 show ?thesis by simp
    next
      case (Inr childMap)
      have "errors_init h1 (snd (flatten_range h1 delimiter visited keyPrefix rest
              (fold (\<lambda>(childKey, childErr). AList.update (key @ delimiter @ childKey) childErr) childMap errorMap)))"
        using "3.IH"(2) [OF g refl f [symmetric] Inr] .
      with f1 have "errors_init h (snd (flatten_range h1 delimiter visited keyPrefix rest
              (fold (\<lambda>(childKey, childErr). AList.update (key @ delimiter @ childKey) childErr) childMap errorMap)))"
        by (rule errors_init_trans)
      with TreePtr f Inr show ?thesis by simp
    qed
  qed
qed

subsection \<open>The leaves that flattening reaches\<close>

lemma leafpath_nonempty:
  "leafpath ch V t ks e \<Longrightarrow> ks \<noteq> []"
  "rangepath ch V rest ks e \<Longrightarrow> ks \<noteq> []"
  by (induction rule: leafpath_rangepath.inducts) simp_all

lemma Join_Cons: "ks \<noteq> [] \<Longrightarrow> Join (k # ks) d = k @ d @ Join ks d"
  by (cases ks) simp_all

lemma rangepath_Nil: "\<not> rangepath ch V [] ks e"
  by (auto elim: rangepath.cases)

lemma rangepath_Cons:
  "rangepath ch V ((k, c) # rest) ks e \<longleftrightarrow>
     (case c of Plain m \<Rightarrow> ks = [k] \<and> e = c
              | TreePtr t \<Rightarrow> (\<exists>ks'. leafpath ch V t ks' e \<and> ks = k # ks'))
     \<or> rangepath ch V rest ks e"
  by (auto elim!: rangepath.cases intro: leafpath_rangepath.intros split: error.splits)

lemma leafpath_visited: "t \<in> V \<Longrightarrow> \<not> leafpath ch V t ks e"
  by (auto elim: leafpath.cases)

lemma leafpath_enter: "t \<notin> V \<Longrightarrow> leafpath ch V t ks e \<longleftrightarrow> rangepath ch (insert t V) (ch t) ks e"
  by (auto elim: leafpath.cases intro: leafpath_rangepath.intros)

lemma fold_update_keys:
  "fst ` set (fold (\<lambda>(ck, ce). AList.update (f ck) ce) cm acc) = fst ` set acc \<union> f ` fst ` set cm"
proof (induction cm arbitrary: acc)
  case Nil
  show ?case by simp
next
  case (Cons x cm)
  obtain ck ce where x: "x = (ck, ce)" by (cases x)
  have "fst ` set (fold (\<lambda>(ck, ce). AList.update (f ck) ce) (x # cm) acc) =
        fst ` set (AList.update (f ck) ce acc) \<union> f ` fst ` set cm"
    using Cons.IH [of "AList.update (f ck) ce acc"] x by simp
  also have "\<dots> = fst ` set acc \<union> f ` fst ` set (x # cm)"
    using x by (simp add: dom_update)
  finally show ?case .
qed

lemma fold_update_distinct:
  "distinct (map fst acc) \<Longrightarrow> distinct (map fst (fold (\<lambda>(ck, ce). AList.update (f ck) ce) cm acc))"
proof (induction cm arbitrary: acc)
  case Nil
  then show ?case by simp
next
  case (Cons x cm)
  obtain ck ce where x: "x = (ck, ce)" by (cases x)
  have "distinct (map fst (AList.update (f ck) ce acc))"
    using Cons.prems by (rule distinct_update)
  from Cons.IH [OF this] show ?case using x by simp
qed

lemma fold_update_lookup:
  "map_of (fold (\<lambda>(ck, ce). AList.update (f ck) ce) cm acc) p = Some e \<Longrightarrow>
   map_of acc p = Some e \<or> (\<exists>ck. (ck, e) \<in> set cm \<and> p = f ck)"
proof (induction cm arbitrary: acc)
  case Nil
  then show ?case by simp
next
  case (Cons x cm)
  obtain ck ce where x: "x = (ck, ce)" by (cases x)
  from Cons.prems x have "map_of (fold (\<lambda>(ck, ce). AList.update (f ck) ce) cm (AList.update (f ck) ce acc)) p = Some e"
    by simp
  from Cons.IH [OF this] show ?case using x
    by (auto simp: update_conv' split: if_splits)
qed

lemma flat_ok_sound:
  "flat_ok ch d V t m \<Longrightarrow> map_of m p = Some e \<Longrightarrow> \<exists>ks. leafpath ch V t ks e \<and> p = Join ks d"
  unfolding flat_ok_def by blast

lemma flat_ok_complete:
  "flat_ok ch d V t m \<Longrightarrow> leafpath ch V t ks e \<Longrightarrow> Join ks d \<in> fst ` set m"
  unfolding flat_ok_def by blast

lemma flat_ok_distinct: "flat_ok ch d V t m \<Longrightarrow> distinct (map fst m)"
  unfolding flat_ok_def by blast

lemma range_ok_Nil: "range_ok ch d V [] acc acc"
  by (simp add: range_ok_def rangepath_Nil)

lemma range_ok_leaf:
  assumes "range_ok ch d V rest (AList.update k (Plain m) acc) m'"
  shows "range_ok ch d V ((k, Plain m) # rest) acc m'"
proof -
  have d: "distinct (map fst acc) \<longrightarrow> distinct (map fst m')"
    using assms by (simp add: range_ok_def distinct_update)
  have s: "map_of acc p = Some e \<or> (\<exists>ks. rangepath ch V ((k, Plain m) # rest) ks e \<and> p = Join ks d)"
    if "map_of m' p = Some e" for p e
  proof -
    from assms that have "map_of (AList.update k (Plain m) acc) p = Some e \<or>
        (\<exists>ks. rangepath ch V rest ks e \<and> p = Join ks d)"
      by (simp add: range_ok_def)
    then show ?thesis
    proof
      assume "map_of (AList.update k (Plain m) acc) p = Some e"
      then have "(p = k \<and> e = Plain m) \<or> map_of acc p = Some e"
        by (auto simp: update_conv' split: if_splits)
      then show ?thesis
      proof
        assume "p = k \<and> e = Plain m"
        then have "rangepath ch V ((k, Plain m) # rest) [k] e \<and> p = Join [k] d"
          by (simp add: rangepath_Cons)
        then show ?thesis by blast
      qed simp
    next
      assume "\<exists>ks. rangepath ch V rest ks e \<and> p = Join ks d"
      then show ?thesis by (auto simp: rangepath_Cons)
    qed
  qed
  have k: "p \<in> fst ` set m' \<longleftrightarrow>
        p \<in> fst ` set acc \<or> (\<exists>ks e. rangepath ch V ((k, Plain m) # rest) ks e \<and> p = Join ks d)" for p
  proof -
    from assms have "p \<in> fst ` set m' \<longleftrightarrow>
        p \<in> fst ` set (AList.update k (Plain m) acc) \<or> (\<exists>ks e. rangepath ch V rest ks e \<and> p = Join ks d)"
      by (simp add: range_ok_def)
    also have "\<dots> \<longleftrightarrow> p = k \<or> p \<in> fst ` set acc \<or> (\<exists>ks e. rangepath ch V rest ks e \<and> p = Join ks d)"
      by (simp add: dom_update)
    also have "\<dots> \<longleftrightarrow> p \<in> fst ` set acc \<or> (\<exists>ks e. rangepath ch V ((k, Plain m) # rest) ks e \<and> p = Join ks d)"
      by (auto simp: rangepath_Cons)
    finally show ?thesis .
  qed
  from d s k show ?thesis unfolding range_ok_def by blast
qed

lemma range_ok_sub:
  assumes c: "flat_ok ch d V c cm"
    and r: "range_ok ch d V rest (fold (\<lambda>(ck, ce). AList.update (k @ d @ ck) ce) cm acc) m'"
  shows "range_ok ch d V ((k, TreePtr c) # rest) acc m'"
proof -
  let ?acc' = "fold (\<lambda>(ck, ce). AList.update (k @ d @ ck) ce) cm acc"
  have cd: "distinct (map fst cm)" using c by (simp add: flat_ok_def)
  have d: "distinct (map fst acc) \<longrightarrow> distinct (map fst m')"
    using r by (simp add: range_ok_def fold_update_distinct)
  have child: "\<exists>ks. leafpath ch V c ks e \<and> ks \<noteq> [] \<and> ck = Join ks d" if "(ck, e) \<in> set cm" for ck e
  proof -
    from that cd have "map_of cm ck = Some e" by simp
    from flat_ok_sound [OF c this] obtain ks where "leafpath ch V c ks e" "ck = Join ks d" by blast
    then show ?thesis using leafpath_nonempty(1) by blast
  qed
  have s: "map_of acc p = Some e \<or> (\<exists>ks. rangepath ch V ((k, TreePtr c) # rest) ks e \<and> p = Join ks d)"
    if "map_of m' p = Some e" for p e
  proof -
    from r that have "map_of ?acc' p = Some e \<or> (\<exists>ks. rangepath ch V rest ks e \<and> p = Join ks d)"
      by (simp add: range_ok_def)
    then show ?thesis
    proof
      assume "map_of ?acc' p = Some e"
      from fold_update_lookup [OF this]
      have "map_of acc p = Some e \<or> (\<exists>ck. (ck, e) \<in> set cm \<and> p = k @ d @ ck)" .
      then show ?thesis
      proof
        assume "\<exists>ck. (ck, e) \<in> set cm \<and> p = k @ d @ ck"
        then obtain ck where ck: "(ck, e) \<in> set cm" "p = k @ d @ ck" by blast
        from child [OF ck(1)] obtain ks where ks: "leafpath ch V c ks e" "ks \<noteq> []" "ck = Join ks d"
          by blast
        then have "rangepath ch V ((k, TreePtr c) # rest) (k # ks) e \<and> p = Join (k # ks) d"
          using ck(2) by (simp add: rangepath_Cons Join_Cons)
        then show ?thesis by blast
      qed simp
    next
      assume "\<exists>ks. rangepath ch V rest ks e \<and> p = Join ks d"
      then show ?thesis by (auto simp: rangepath_Cons)
    qed
  qed
  have k: "p \<in> fst ` set m' \<longleftrightarrow>
        p \<in> fst ` set acc \<or> (\<exists>ks e. rangepath ch V ((k, TreePtr c) # rest) ks e \<and> p = Join ks d)" for p
  proof -
    have sub: "p \<in> (\<lambda>ck. k @ d @ ck) ` fst ` set cm \<longleftrightarrow>
          (\<exists>ks e. leafpath ch V c ks e \<and> p = Join (k # ks) d)"
    proof
      assume "p \<in> (\<lambda>ck. k @ d @ ck) ` fst ` set cm"
      then obtain ck e where ck: "(ck, e) \<in> set cm" "p = k @ d @ ck" by auto
      from child [OF ck(1)] obtain ks where ks: "leafpath ch V c ks e" "ks \<noteq> []" "ck = Join ks d"
        by blast
      then show "\<exists>ks e. leafpath ch V c ks e \<and> p = Join (k # ks) d"
        using ck(2) by (auto simp: Join_Cons)
    next
      assume "\<exists>ks e. leafpath ch V c ks e \<and> p = Join (k # ks) d"
      then obtain ks e where ks: "leafpath ch V c ks e" "p = Join (k # ks) d" by blast
      from flat_ok_complete [OF c ks(1)] have "Join ks d \<in> fst ` set cm" .
      moreover have "p = k @ d @ Join ks d"
        using ks leafpath_nonempty(1) [OF ks(1)] by (simp add: Join_Cons)
      ultimately show "p \<in> (\<lambda>ck. k @ d @ ck) ` fst ` set cm" by blast
    qed
    from r have "p \<in> fst ` set m' \<longleftrightarrow>
        p \<in> fst ` set ?acc' \<or> (\<exists>ks e. rangepath ch V rest ks e \<and> p = Join ks d)"
      by (simp add: range_ok_def)
    also have "\<dots> \<longleftrightarrow> p \<in> fst ` set acc \<or> p \<in> (\<lambda>ck. k @ d @ ck) ` fst ` set cm \<or>
        (\<exists>ks e. rangepath ch V rest ks e \<and> p = Join ks d)"
      by (simp add: fold_update_keys)
    also have "\<dots> \<longleftrightarrow> p \<in> fst ` set acc \<or> (\<exists>ks e. leafpath ch V c ks e \<and> p = Join (k # ks) d) \<or>
        (\<exists>ks e. rangepath ch V rest ks e \<and> p = Join ks d)"
      by (simp only: sub)
    also have "\<dots> \<longleftrightarrow> p \<in> fst ` set acc \<or> (\<exists>ks e. rangepath ch V ((k, TreePtr c) # rest) ks e \<and> p = Join ks d)"
      by (auto simp: rangepath_Cons)
    finally show ?thesis .
  qed
  from d s k show ?thesis unfolding range_ok_def by blast
qed

lemma flat_ok_enter:
  assumes "t \<notin> V" and "range_ok ch d (insert t V) (ch t) [] m"
  shows "flat_ok ch d V t m"
  using assms unfolding flat_ok_def range_ok_def
  by (auto simp: leafpath_enter)

lemma flat_ok_visited: "t \<in> V \<Longrightarrow> flat_ok ch d V t []"
  by (simp add: flat_ok_def leafpath_visited)

lemma closed_heap_init: "errors_init h h' \<Longrightarrow> closed_heap h \<Longrightarrow> closed_heap h'"
  by (simp add: closed_heap_def errors_init_children errors_init_deref)

lemma getErrors_children: "deref h t \<noteq> None \<Longrightarrow> fst (getErrors h t) = Inr (children h t)"
  by (auto simp: getErrors_def children_def split: option.splits)

lemma flatten_ok:
  "closed_heap h \<Longrightarrow> deref h tree \<noteq> None \<or> tree \<in> set visited \<Longrightarrow>
     \<exists>m. fst (flatten h tree d visited kp) = Inr m \<and> flat_ok (children h) d (set visited) tree m"
  "closed_heap h \<Longrightarrow> (\<forall>k c. (k, TreePtr c) \<in> set rest \<longrightarrow> deref h c \<noteq> None) \<Longrightarrow>
     \<exists>m. fst (flatten_range h d visited kp rest acc) = Inr m \<and>
         range_ok (children h) d (set visited) rest acc m"
proof (induction h tree d visited kp and h d visited kp rest acc rule: flatten_flatten_range.induct)
  case (1 h tree delimiter visited keyPrefix)
  show ?case
  proof (cases "tree \<in> set visited")
    case True
    then show ?thesis by (simp add: flatten.simps flat_ok_visited)
  next
    case False
    with "1.prems" have alloc: "deref h tree \<noteq> None" by simp
    obtain x h1 where g: "getErrors h tree = (x, h1)" by (cases "getErrors h tree")
    have x: "x = Inr (children h tree)" using getErrors_children [OF alloc] g by simp
    have f1: "errors_init h h1" using getErrors_frame [of h tree] g by simp
    have c1: "closed_heap h1" using f1 "1.prems"(1) by (rule closed_heap_init)
    have ch: "children h1 = children h" using f1 by (rule errors_init_children)
    have ptr: "\<forall>k c. (k, TreePtr c) \<in> set (children h tree) \<longrightarrow> deref h1 c \<noteq> None"
      using "1.prems"(1) by (simp add: closed_heap_def errors_init_deref [OF f1])
    from "1.IH" [OF False g [symmetric] x c1 ptr]
    obtain m where m: "fst (flatten_range h1 delimiter (visited @ [tree]) keyPrefix (children h tree) []) = Inr m"
      "range_ok (children h) delimiter (insert tree (set visited)) (children h tree) [] m"
      by (auto simp: ch)
    have "flat_ok (children h) delimiter (set visited) tree m"
      using False m(2) by (rule flat_ok_enter)
    with False g x m(1) show ?thesis by (simp add: flatten.simps)
  qed
next
  case (2 h delimiter visited keyPrefix errorMap)
  show ?case by (simp add: range_ok_Nil)
next
  case (3 h delimiter visited keyPrefix key err rest errorMap)
  have rest: "\<forall>k c. (k, TreePtr c) \<in> set rest \<longrightarrow> deref h c \<noteq> None" using "3.prems"(2) by simp
  show ?case
  proof (cases err)
    case (Plain m)
    have g: "(nil, False) = GetTree (Some err)" using Plain by simp
    from "3.IH"(3) [OF g refl "3.prems"(1) rest]
    obtain m' where m': "fst (flatten_range h delimiter visited keyPrefix rest (AList.update key err errorMap)) = Inr m'"
      "range_ok (children h) delimiter (set visited) rest (AList.update key err errorMap) m'"
      by blast
    have "range_ok (children h) delimiter (set visited) ((key, err) # rest) errorMap m'"
      using m'(2) unfolding Plain by (rule range_ok_leaf)
    with m'(1) Plain show ?thesis by simp
  next
    case (TreePtr c)
    have g: "(c, True) = GetTree (Some err)" using TreePtr by simp
    have alloc: "deref h c \<noteq> None \<or> c \<in> set visited" using "3.prems"(2) TreePtr by simp
    obtain x h1 where f: "flatten h c delimiter visited (keyPrefix @ [key]) = (x, h1)"
      by (cases "flatten h c delimiter visited (keyPrefix @ [key])")
    from "3.IH"(1) [OF g refl "3.prems"(1) alloc] f
    obtain cm where cm: "x = Inr cm" "flat_ok (children h) delimiter (set visited) c cm" by auto
    have f1: "errors_init h h1" using flatten_frame(1) [of h c delimiter visited "keyPrefix @ [key]"] f by simp
    have c1: "closed_heap h1" using f1 "3.prems"(1) by (rule closed_heap_init)
    have ch: "children h1 = children h" using f1 by (rule errors_init_children)
    have rest1: "\<forall>k c. (k, TreePtr c) \<in> set rest \<longrightarrow> deref h1 c \<noteq> None"
      using rest by (simp add: errors_init_deref [OF f1])
    let ?acc = "fold (\<lambda>(childKey, childErr). AList.update (key @ delimiter @ childKey) childErr) cm errorMap"
    from "3.IH"(2) [OF g refl f [symmetric] cm(1) c1 rest1]
    obtain m' where m': "fst (flatten_range h1 delimiter visited keyPrefix rest ?acc) = Inr m'"
      "range_ok (children h) delimiter (set visited) rest ?acc m'"
      by (auto simp: ch)
    have "range_ok (children h) delimiter (set visited) ((key, err) # rest) errorMap m'"
      using cm(2) m'(2) unfolding TreePtr by (rule range_ok_sub)
    with m'(1) TreePtr f cm(1) show ?thesis by simp
  qed
qed

subsection \<open>Heaps of the same shape\<close>

lemma shape_sym: "shape h h' \<Longrightarrow> shape h' h"
  by (simp add: shape_def)

lemma shape_trans: "shape h1 h2 \<Longrightarrow> shape h2 h3 \<Longrightarrow> shape h1 h3"
  by (simp add: shape_def)

lemma errors_init_shape: "errors_init h h' \<Longrightarrow> shape h h'"
  by (simp add: shape_def errors_init_children errors_init_deref)

lemma getErrors_shape:
  assumes "shape h h'"
  shows "fst (getErrors h t) = fst (getErrors h' t)"
proof (cases "deref h t = None")
  case True
  moreover from True assms have "deref h' t = None" by (simp add: shape_def)
  ultimately show ?thesis by (simp add: getErrors_def)
next
  case False
  moreover from False assms have "deref h' t \<noteq> None" by (simp add: shape_def)
  ultimately show ?thesis using assms by (simp add: getErrors_children shape_def)
qed

lemma getDelimiter_shape: "shape h (snd (getDelimiter h t))"
  by (auto simp: shape_def getDelimiter_def children_def deref_def split: option.splits)

lemma getFormatter_shape: "shape h (snd (getFormatter h t))"
  by (auto simp: shape_def getFormatter_def children_def deref_def split: option.splits)

lemma flatten_shape:
  "shape h h' \<Longrightarrow> fst (flatten h tree d visited kp) = fst (flatten h' tree d visited kp)"
  "shape h h' \<Longrightarrow> fst (flatten_range h d visited kp rest acc) = fst (flatten_range h' d visited kp rest acc)"
proof (induction h tree d visited kp and h d visited kp rest acc arbitrary: h' and h'
    rule: flatten_flatten_range.induct)
  case (1 h tree delimiter visited keyPrefix)
  show ?case
  proof (cases "tree \<in> set visited")
    case True
    then show ?thesis by (simp add: flatten.simps)
  next
    case False
    obtain x h1 where g: "getErrors h tree = (x, h1)" by (cases "getErrors h tree")
    obtain x' h1' where g': "getErrors h' tree = (x', h1')" by (cases "getErrors h' tree")
    have xx: "x' = x" using getErrors_shape [OF "1.prems", of tree] g g' by simp
    have "shape h h1" using getErrors_frame [of h tree] g by (simp add: errors_init_shape)
    moreover have "shape h' h1'" using getErrors_frame [of h' tree] g' by (simp add: errors_init_shape)
    ultimately have s1: "shape h1 h1'" using "1.prems" by (blast intro: shape_sym shape_trans)
    show ?thesis
    proof (cases x)
      case (Inl p)
      with False g g' xx show ?thesis by (simp add: flatten.simps)
    next
      case (Inr errors)
      from "1.IH" [OF False g [symmetric] Inr s1] False g g' xx Inr
      show ?thesis by (simp add: flatten.simps)
    qed
  qed
next
  case (2 h delimiter visited keyPrefix errorMap)
  show ?case by simp
next
  case (3 h delimiter visited keyPrefix key err rest errorMap)
  show ?case
  proof (cases err)
    case (Plain m)
    have g: "(nil, False) = GetTree (Some err)" using Plain by simp
    from "3.IH"(3) [OF g refl "3.prems"] Plain show ?thesis by simp
  next
    case (TreePtr c)
    have g: "(c, True) = GetTree (Some err)" using TreePtr by simp
    obtain x h1 where f: "flatten h c delimiter visited (keyPrefix @ [key]) = (x, h1)"
      by (cases "flatten h c delimiter visited (keyPrefix @ [key])")
    obtain x' h1' where f': "flatten h' c delimiter visited (keyPrefix @ [key]) = (x', h1')"
      by (cases "flatten h' c delimiter visited (keyPrefix @ [key])")
    have xx: "x' = x" using "3.IH"(1) [OF g refl "3.prems"] f f' by simp
    have "shape h h1"
      using flatten_frame(1) [of h c delimiter visited "keyPrefix @ [key]"] f by (simp add: errors_init_shape)
    moreover have "shape h' h1'"
      using flatten_frame(1) [of h' c delimiter visited "keyPrefix @ [key]"] f' by (simp add: errors_init_shape)
    ultimately have s1: "shape h1 h1'" using "3.prems" by (blast intro: shape_sym shape_trans)
    show ?thesis
    proof (cases x)
      case (Inl p)
      with TreePtr f f' xx show ?thesis by simp
    next
      case (Inr childMap)
      from "3.IH"(2) [OF g refl f [symmetric] Inr s1] TreePtr f f' xx Inr
      show ?thesis by simp
    qed
  qed
qed

subsection \<open>Flatten, Keys and Error through flatten\<close>

lemma flatten_distinct:
  "fst (flatten h tree d visited kp) = Inr m \<Longrightarrow> distinct (map fst m)"
  "distinct (map fst acc) \<Longrightarrow> fst (flatten_range h d visited kp rest acc) = Inr m \<Longrightarrow> distinct (map fst m)"
proof (induction h tree d visited kp and h d visited kp rest acc arbitrary: m and m
    rule: flatten_flatten_range.induct)
  case (1 h tree delimiter visited keyPrefix)
  show ?case
  proof (cases "tree \<in> set visited")
    case True
    with "1.prems" show ?thesis by (simp add: flatten.simps)
  next
    case False
    obtain x h1 where g: "getErrors h tree = (x, h1)" by (cases "getErrors h tree")
    show ?thesis
    proof (cases x)
      case (Inl p)
      with False g "1.prems" show ?thesis by (simp add: flatten.simps)
    next
      case (Inr errors)
      have "fst (flatten_range h1 delimiter (visited @ [tree]) keyPrefix errors []) = Inr m"
        using False g Inr "1.prems" by (simp add: flatten.simps)
      with "1.IH" [OF False g [symmetric] Inr] show ?thesis by simp
    qed
  qed
next
  case (2 h delimiter visited keyPrefix errorMap)
  then show ?case by simp
next
  case (3 h delimiter visited keyPrefix key err rest errorMap)
  show ?case
  proof (cases err)
    case (Plain msg)
    have g: "(nil, False) = GetTree (Some err)" using Plain by simp
    have "distinct (map fst (AList.update key err errorMap))"
      using "3.prems"(1) by (rule distinct_update)
    moreover have "fst (flatten_range h delimiter visited keyPrefix rest (AList.update key err errorMap)) = Inr m"
      using "3.prems"(2) Plain by simp
    ultimately show ?thesis by (rule "3.IH"(3) [OF g refl])
  next
    case (TreePtr c)
    have g: "(c, True) = GetTree (Some err)" using TreePtr by simp
    obtain x h1 where f: "flatten h c delimiter visited (keyPrefix @ [key]) = (x, h1)"
      by (cases "flatten h c delimiter visited (keyPrefix @ [key])")
    show ?thesis
    proof (cases x)
      case (Inl p)
      with TreePtr f "3.prems"(2) show ?thesis by simp
    next
      case (Inr childMap)
      let ?acc = "fold (\<lambda>(childKey, childErr). AList.update (key @ delimiter @ childKey) childErr) childMap errorMap"
      have "distinct (map fst ?acc)" using "3.prems"(1) by (rule fold_update_distinct)
      moreover have "fst (flatten_range h1 delimiter visited keyPrefix rest ?acc) = Inr m"
        using "3.prems"(2) TreePtr f Inr by simp
      ultimately show ?thesis by (rule "3.IH"(2) [OF g refl f [symmetric] Inr])
    qed
  qed
qed

lemma set_update_subset: "set (AList.update k v al) \<subseteq> insert (k, v) (set al)"
  by (induction al) auto

lemma plain_values_update: "plain_values al \<Longrightarrow> plain_values (AList.update k (Plain m) al)"
  using set_update_subset [of k "Plain m" al] by (auto simp: plain_values_def)

lemma plain_values_fold:
  "plain_values cm \<Longrightarrow> plain_values acc \<Longrightarrow>
   plain_values (fold (\<lambda>(ck, ce). AList.update (f ck) ce) cm acc)"
proof (induction cm arbitrary: acc)
  case Nil
  then show ?case by simp
next
  case (Cons x cm)
  obtain ck ce where x: "x = (ck, ce)" by (cases x)
  from Cons.prems(1) x obtain m where ce: "ce = Plain m"
    by (cases ce) (auto simp: plain_values_def)
  have 1: "plain_values cm" using Cons.prems(1) by (auto simp: plain_values_def)
  have 2: "plain_values (AList.update (f ck) ce acc)"
    unfolding ce using Cons.prems(2) by (rule plain_values_update)
  from Cons.IH [OF 1 2] show ?case using x by simp
qed

lemma flatten_values_plain:
  "fst (flatten h tree d visited kp) = Inr m \<Longrightarrow> plain_values m"
  "plain_values acc \<Longrightarrow> fst (flatten_range h d visited kp rest acc) = Inr m \<Longrightarrow> plain_values m"
proof (induction h tree d visited kp and h d visited kp rest acc arbitrary: m and m
    rule: flatten_flatten_range.induct)
  case (1 h tree delimiter visited keyPrefix)
  show ?case
  proof (cases "tree \<in> set visited")
    case True
    with "1.prems" show ?thesis by (simp add: flatten.simps plain_values_def)
  next
    case False
    obtain x h1 where g: "getErrors h tree = (x, h1)" by (cases "getErrors h tree")
    show ?thesis
    proof (cases x)
      case (Inl p)
      with False g "1.prems" show ?thesis by (simp add: flatten.simps)
    next
      case (Inr errors)
      have "fst (flatten_range h1 delimiter (visited @ [tree]) keyPrefix errors []) = Inr m"
        using False g Inr "1.prems" by (simp add: flatten.simps)
      with "1.IH" [OF False g [symmetric] Inr] show ?thesis by (simp add: plain_values_def)
    qed
  qed
next
  case (2 h delimiter visited keyPrefix errorMap)
  then show ?case by simp
next
  case (3 h delimiter visited keyPrefix key err rest errorMap)
  show ?case
  proof (cases err)
    case (Plain msg)
    have g: "(nil, False) = GetTree (Some err)" using Plain by simp
    have "plain_values (AList.update key err errorMap)"
      unfolding Plain using "3.prems"(1) by (rule plain_values_update)
    moreover have "fst (flatten_range h delimiter visited keyPrefix rest (AList.update key err errorMap)) = Inr m"
      using "3.prems"(2) Plain by simp
    ultimately show ?thesis by (rule "3.IH"(3) [OF g refl])
  next
    case (TreePtr c)
    have g: "(c, True) = GetTree (Some err)" using TreePtr by simp
    obtain x h1 where f: "flatten h c delimiter visited (keyPrefix @ [key]) = (x, h1)"
      by (cases "flatten h c delimiter visited (keyPrefix @ [key])")
    show ?thesis
    proof (cases x)
      case (Inl p)
      with TreePtr f "3.prems"(2) show ?thesis by simp
    next
      case (Inr childMap)
      let ?acc = "fold (\<lambda>(childKey, childErr). AList.update (key @ delimiter @ childKey) childErr) childMap errorMap"
      have "plain_values childMap" using "3.IH"(1) [OF g refl, of childMap] f Inr by simp
      then have "plain_values ?acc" using "3.prems"(1) by (rule plain_values_fold)
      moreover have "fst (flatten_range h1 delimiter visited keyPrefix rest ?acc) = Inr m"
        using "3.prems"(2) TreePtr f Inr by simp
      ultimately show ?thesis by (rule "3.IH"(2) [OF g refl f [symmetric] Inr])
    qed
  qed
qed

lemma getDelimiter_alloc:
  "deref h t = Some T \<Longrightarrow> fst (getDelimiter h t) = Inr (delimiter_of T)"
  by (simp add: getDelimiter_def delimiter_of_def)

lemma fold_keys: "fold (\<lambda>(key, _) keys. keys @ [key]) m ks = ks @ map fst m"
  by (induction m arbitrary: ks) (auto split: prod.splits)

lemma Flatten_flatten:
  assumes "deref h t = Some T"
  shows "fst (Flatten h (Some (TreePtr t))) = map_sum id Some (fst (flatten h t (delimiter_of T) [] []))"
proof -
  obtain x h1 where g: "getDelimiter h t = (x, h1)" by (cases "getDelimiter h t")
  have x: "x = Inr (delimiter_of T)" using getDelimiter_alloc [OF assms] g by simp
  have "shape h h1" using getDelimiter_shape [of h t] g by simp
  then have "fst (flatten h t (delimiter_of T) [] []) = fst (flatten h1 t (delimiter_of T) [] [])"
    by (rule flatten_shape(1))
  then show ?thesis using g x
    by (auto simp: Flatten_def split: prod.splits sum.splits)
qed

lemma Tree_Error_flatten:
  assumes "deref h t = Some T"
  shows "fst (Tree_Error h t) = map_sum id (formatter_of T) (fst (flatten h t (delimiter_of T) [] []))"
proof -
  have t: "t \<noteq> nil" using assms by (auto simp: deref_def)
  obtain f h1 where gf: "getFormatter h t = (f, h1)" by (cases "getFormatter h t")
  have f: "f = Inr (formatter_of T)"
    using gf assms by (auto simp: getFormatter_def formatter_of_def split: option.splits)
  have s1: "shape h h1" using getFormatter_shape [of h t] gf by simp
  obtain T1 where T1: "deref h1 t = Some T1" "Delimiter T1 = Delimiter T"
    using gf assms t by (auto simp: getFormatter_def deref_def split: option.splits)
  obtain x h2 where g: "getDelimiter h1 t = (x, h2)" by (cases "getDelimiter h1 t")
  have x: "x = Inr (delimiter_of T)"
    using getDelimiter_alloc [OF T1(1)] g T1(2) by (simp add: delimiter_of_def)
  have "shape h1 h2" using getDelimiter_shape [of h1 t] g by simp
  with s1 have "shape h h2" by (rule shape_trans)
  then have "fst (flatten h t (delimiter_of T) [] []) = fst (flatten h2 t (delimiter_of T) [] [])"
    by (rule flatten_shape(1))
  then show ?thesis using t gf f g x
    by (auto simp: Tree_Error_def split: prod.splits sum.splits)
qed

lemma Flatten_ok:
  assumes "closed_heap h" and "deref h t = Some T"
  shows "\<exists>m. fst (Flatten h (Some (TreePtr t))) = Inr (Some m) \<and>
             flat_ok (children h) (delimiter_of T) {} t m"
proof -
  from flatten_ok(1) [of h t "[]" "delimiter_of T" "[]"] assms
  obtain m where "fst (flatten h t (delimiter_of T) [] []) = Inr m"
    "flat_ok (children h) (delimiter_of T) {} t m" by auto
  then show ?thesis by (simp add: Flatten_flatten [OF assms(2)])
qed

subsection \<open>The example heaps\<close>

lemmas example_defs = h_keys_def h_mutual_def h_cycle_collide_def h_nested_def h_empty_def literal_def

lemmas eval_defs = Flatten_def Keys_def getDelimiter_def getErrors_def deref_def nil_def flatten.simps
  DefaultDelimiter_def

lemma closed_mutual: "closed_heap h_mutual"
  by (auto simp: closed_heap_def children_def deref_def nil_def example_defs split: if_splits)

lemma closed_multi: "closed_heap h_multi"
  by (auto simp: closed_heap_def children_def deref_def nil_def h_multi_def h_empty_def literal_def
      split: if_splits)

lemma closed_nested: "closed_heap h_nested"
  by (auto simp: closed_heap_def children_def deref_def nil_def example_defs split: if_splits)

section \<open>Set and Add\<close>

lemma getErrors_alloc:
  "deref h t \<noteq> None \<Longrightarrow> \<exists>h'. getErrors h t = (Inr (children h t), h') \<and> errors_init h h'"
  using getErrors_children [of h t] getErrors_frame [of h t]
  by (cases "getErrors h t") simp

text \<open>
  C1. The claim: \<open>Add\<close> on a non-nil parent that is not a tree panics with the message of
  \<open>Set\<close>. The code does not: \<open>Add\<close> has no check of the parent, \<open>GetTree\<close> hands it the nil
  tree, and \<open>set\<close> allocates a new tree. At the input of the package's own test
  ("Add on non-tree: should panic", which calls \<open>Set\<close>), \<open>Add\<close> returns a new tree that
  holds the error under the key and drops the parent, where \<open>Set\<close> panics.
\<close>

theorem Add_on_non_tree_parent:
  "fst (Add 1 h_empty (Some (Plain ''test'')) ''a'' (Some (Plain ''test0''))) = Inr (Some (TreePtr 1)) \<and>
   children (snd (Add 1 h_empty (Some (Plain ''test'')) ''a'' (Some (Plain ''test0'')))) 1 = [(''a'', Plain ''test0'')] \<and>
   fst (Set 1 h_empty (Some (Plain ''test'')) ''a'' (Some (Plain ''test0''))) =
     Inl (Panic ''Cannot set error: not an *errortree.Tree.'')"
  by (simp add: Add_def Set_def set_tree_def New_def getErrors_def store_errors_def deref_def nil_def
      children_def h_empty_def)

text \<open>
  C6, as amended. With a nil \<open>err\<close> and a parent that is nil or a tree, \<open>Set\<close> returns the
  parent and leaves the heap as it is. \<open>Add\<close> returns the parent as well when the key is
  not an entry of the parent, and then no entry of any tree is created or changed: the
  heap differs at most in that an absent map of entries has become the empty map. \<open>Add\<close>
  panics when the key is an entry of the parent, and \<open>Set\<close> panics when the parent is not
  nil and not a tree, also with a nil \<open>err\<close>: both checks come before \<open>err\<close> is looked at.
\<close>

theorem nil_err_noop:
  "(parent = None \<or> (\<exists>t. parent = Some (TreePtr t) \<and> deref h t \<noteq> None) \<longrightarrow>
      Set fresh h parent key None = (Inr parent, h) \<and>
      (key \<notin> fst ` set (children h (fst (GetTree parent))) \<longrightarrow>
         fst (Add fresh h parent key None) = Inr parent \<and>
         errors_init h (snd (Add fresh h parent key None)) \<and>
         children (snd (Add fresh h parent key None)) = children h) \<and>
      (key \<in> fst ` set (children h (fst (GetTree parent))) \<longrightarrow>
         fst (Add fresh h parent key None) = Inl (Panic (''Cannot add error: key '' @ key @ '' exists.'')))) \<and>
   (parent \<noteq> None \<and> \<not> snd (GetTree parent) \<longrightarrow>
      fst (Set fresh h parent key None) = Inl (Panic ''Cannot set error: not an *errortree.Tree.''))"
proof (intro conjI impI)
  assume p: "parent = None \<or> (\<exists>t. parent = Some (TreePtr t) \<and> deref h t \<noteq> None)"
  then show "Set fresh h parent key None = (Inr parent, h)"
    by (auto simp: Set_def set_tree_def deref_def)
  {
    assume k: "key \<notin> fst ` set (children h (fst (GetTree parent)))"
    from p have "fst (Add fresh h parent key None) = Inr parent \<and>
         errors_init h (snd (Add fresh h parent key None))"
    proof
      assume "parent = None"
      then show ?thesis by (simp add: Add_def set_tree_def errors_init_refl)
    next
      assume "\<exists>t. parent = Some (TreePtr t) \<and> deref h t \<noteq> None"
      then obtain t where t: "parent = Some (TreePtr t)" "deref h t \<noteq> None" by blast
      from getErrors_alloc [OF t(2)] obtain h' where
        h': "getErrors h t = (Inr (children h t), h')" "errors_init h h'" by blast
      have "t \<noteq> nil" using t(2) by (auto simp: deref_def)
      moreover have "map_of (children h t) key = None" using k t(1) by (simp add: map_of_eq_None_iff)
      ultimately show ?thesis using t(1) h' by (simp add: Add_def set_tree_def)
    qed
    then show "fst (Add fresh h parent key None) = Inr parent"
      and e: "errors_init h (snd (Add fresh h parent key None))" by simp_all
    from e show "children (snd (Add fresh h parent key None)) = children h"
      by (rule errors_init_children)
  }
  {
    assume k: "key \<in> fst ` set (children h (fst (GetTree parent)))"
    have "parent \<noteq> None" using k by (cases parent) (simp_all add: children_def deref_def)
    with p obtain t where t: "parent = Some (TreePtr t)" "deref h t \<noteq> None" by blast
    from getErrors_alloc [OF t(2)] obtain h' where
      h': "getErrors h t = (Inr (children h t), h')" by blast
    have "t \<noteq> nil" using t(2) by (auto simp: deref_def)
    moreover have "map_of (children h t) key \<noteq> None" using k t(1) by (simp add: map_of_eq_None_iff)
    ultimately show "fst (Add fresh h parent key None) =
        Inl (Panic (''Cannot add error: key '' @ key @ '' exists.''))"
      using t(1) h' by (auto simp: Add_def)
  }
next
  assume "parent \<noteq> None \<and> \<not> snd (GetTree parent)"
  then show "fst (Set fresh h parent key None) = Inl (Panic ''Cannot set error: not an *errortree.Tree.'')"
    by (auto simp: Set_def split: prod.splits)
qed

theorem nil_err_noop_witness:
  "Set 3 h_nested (Some (TreePtr 1)) ''b'' None = (Inr (Some (TreePtr 1)), h_nested) \<and>
   fst (Add 3 h_nested (Some (TreePtr 1)) ''b'' None) = Inr (Some (TreePtr 1)) \<and>
   children (snd (Add 3 h_nested (Some (TreePtr 1)) ''b'' None)) = children h_nested \<and>
   fst (Add 3 h_nested (Some (TreePtr 1)) ''a'' None) = Inl (Panic ''Cannot add error: key a exists.'') \<and>
   fst (Set 3 h_nested (Some (Plain ''test'')) ''b'' None) =
     Inl (Panic ''Cannot set error: not an *errortree.Tree.'')"
proof -
  have d: "deref h_nested 1 \<noteq> None"
    by (simp add: deref_def nil_def h_nested_def)
  have c: "children h_nested 1 = [(''a'', Plain ''test0''), (''c'', TreePtr 2)]"
    by (simp add: children_def deref_def nil_def h_nested_def literal_def)
  show ?thesis
    using nil_err_noop [where parent = "Some (TreePtr 1)" and h = h_nested and key = "''b''" and fresh = 3]
      nil_err_noop [where parent = "Some (TreePtr 1)" and h = h_nested and key = "''a''" and fresh = 3]
      nil_err_noop [where parent = "Some (Plain ''test'')" and h = h_nested and key = "''b''" and fresh = 3] d c
    by simp
qed

text \<open>
  The claim as stated (a nil \<open>err\<close> is a no-op without a panic for every parent) fails for
  \<open>Set\<close> at a parent that is not a tree, and for \<open>Add\<close> at a key that the parent holds.
\<close>

theorem nil_err_counterexample:
  "fst (Set 3 h_nested (Some (Plain ''test'')) ''b'' None) =
     Inl (Panic ''Cannot set error: not an *errortree.Tree.'') \<and>
   fst (Add 3 h_nested (Some (TreePtr 1)) ''a'' None) = Inl (Panic ''Cannot add error: key a exists.'')"
  by (simp add: Add_def Set_def getErrors_def deref_def nil_def h_nested_def h_empty_def literal_def)

section \<open>Keys\<close>

text \<open>
  C7. \<open>Keys\<close> returns nil for a value that is not a tree, as \<open>Flatten\<close> does, and otherwise
  the keys of the map that \<open>Flatten\<close> returns, in the order of \<^verbatim>\<open>sort.Strings\<close>; when
  \<open>Flatten\<close> panics (a nil tree pointer), \<open>Keys\<close> panics alike.
\<close>

theorem Keys_sorted_keys_of_Flatten:
  "fst (Keys h err) =
     (case fst (Flatten h err) of
        Inl p \<Rightarrow> Inl p
      | Inr None \<Rightarrow> Inr None
      | Inr (Some m) \<Rightarrow> Inr (Some (sorted_list_of_set (fst ` set m)))) \<and>
   (\<not> snd (GetTree err) \<longrightarrow> fst (Keys h err) = Inr None \<and> fst (Flatten h err) = Inr None)"
proof (cases "snd (GetTree err)")
  case False
  then show ?thesis by (auto simp: Keys_def Flatten_def split: prod.splits)
next
  case True
  then obtain t where err: "err = Some (TreePtr t)"
    by (cases err rule: GetTree.cases) simp_all
  obtain x h1 where g: "getDelimiter h t = (x, h1)" by (cases "getDelimiter h t")
  show ?thesis
  proof (cases x)
    case (Inl p)
    with err g show ?thesis by (simp add: Keys_def Flatten_def)
  next
    case (Inr d)
    obtain y h2 where f: "flatten h1 t d [] [] = (y, h2)" by (cases "flatten h1 t d [] []")
    show ?thesis
    proof (cases y)
      case (Inl p)
      with err g Inr f show ?thesis by (simp add: Keys_def Flatten_def)
    next
      case m: (Inr m)
      have "distinct (map fst m)" using flatten_distinct(1) [of h1 t d "[]" "[]" m] f m by simp
      then have "sort (map fst m) = sorted_list_of_set (fst ` set m)"
        by (simp add: sorted_list_of_set_sort_remdups distinct_remdups_id flip: set_map)
      with err g Inr f m show ?thesis by (simp add: Keys_def Flatten_def fold_keys)
    qed
  qed
qed

theorem Keys_witness:
  "fst (Keys h_keys (Some (TreePtr 1))) = Inr (Some [''a'', ''b'', ''c.a'', ''c.b'']) \<and>
   fst (Keys h_keys (Some (Plain ''test''))) = Inr None"
proof -
  have flat: "fst (Flatten h_keys (Some (TreePtr 1))) =
      Inr (Some [(''a'', Plain ''test0''), (''b'', Plain ''test1''), (''c.a'', Plain ''test2''), (''c.b'', Plain ''test3'')])"
    by (simp add: eval_defs example_defs)
  have srt: "sorted_list_of_set (fst ` set [(''a'', Plain ''test0''), (''b'', Plain ''test1''), (''c.a'', Plain ''test2''), (''c.b'', Plain ''test3'')])
      = [''a'', ''b'', ''c.a'', ''c.b'']"
    by code_simp
  show ?thesis
    using Keys_sorted_keys_of_Flatten [of h_keys "Some (TreePtr 1)"]
      Keys_sorted_keys_of_Flatten [of h_keys "Some (Plain ''test'')"] flat srt
    by simp
qed

section \<open>Flattening a cyclic tree\<close>

text \<open>
  C2, as amended. On a heap whose tree pointers all point to trees, \<open>flatten\<close> returns a
  map (it is a total function: the recursion ends because the path of trees entered grows
  and never repeats an address), and a tree that is on the path of trees entered yields
  the empty map. The keys of the result are exactly the joined paths of the leaves that
  can be reached without entering a tree that is already on the path, and every entry
  holds a leaf reached on such a path with that joined key. The same holds for \<open>Flatten\<close>
  with the delimiter of the tree it is called on.
\<close>

theorem flatten_cycle_safe:
  assumes "closed_heap h" and "deref h tree = Some T"
  shows "(\<exists>m. fst (flatten h tree d visited kp) = Inr m \<and>
              (tree \<in> set visited \<longrightarrow> m = []) \<and>
              (\<forall>p e. map_of m p = Some e \<longrightarrow>
                 (\<exists>ks. leafpath (children h) (set visited) tree ks e \<and> p = Join ks d)) \<and>
              (\<forall>ks e. leafpath (children h) (set visited) tree ks e \<longrightarrow> Join ks d \<in> fst ` set m)) \<and>
         (\<exists>m. fst (Flatten h (Some (TreePtr tree))) = Inr (Some m) \<and>
              (\<forall>p e. map_of m p = Some e \<longrightarrow>
                 (\<exists>ks. leafpath (children h) {} tree ks e \<and> p = Join ks (delimiter_of T))) \<and>
              (\<forall>ks e. leafpath (children h) {} tree ks e \<longrightarrow> Join ks (delimiter_of T) \<in> fst ` set m))"
proof
  from flatten_ok(1) [of h tree visited d kp] assms
  obtain m where m: "fst (flatten h tree d visited kp) = Inr m"
    "flat_ok (children h) d (set visited) tree m" by auto
  have "tree \<in> set visited \<longrightarrow> m = []" using m(1) by (auto simp: flatten.simps)
  with m show "\<exists>m. fst (flatten h tree d visited kp) = Inr m \<and>
              (tree \<in> set visited \<longrightarrow> m = []) \<and>
              (\<forall>p e. map_of m p = Some e \<longrightarrow>
                 (\<exists>ks. leafpath (children h) (set visited) tree ks e \<and> p = Join ks d)) \<and>
              (\<forall>ks e. leafpath (children h) (set visited) tree ks e \<longrightarrow> Join ks d \<in> fst ` set m)"
    unfolding flat_ok_def by blast
next
  from Flatten_ok [OF assms]
  show "\<exists>m. fst (Flatten h (Some (TreePtr tree))) = Inr (Some m) \<and>
              (\<forall>p e. map_of m p = Some e \<longrightarrow>
                 (\<exists>ks. leafpath (children h) {} tree ks e \<and> p = Join ks (delimiter_of T))) \<and>
              (\<forall>ks e. leafpath (children h) {} tree ks e \<longrightarrow> Join ks (delimiter_of T) \<in> fst ` set m)"
    unfolding flat_ok_def by blast
qed

theorem flatten_cycle_safe_witness:
  "closed_heap h_mutual \<and> deref h_mutual 2 \<noteq> None \<and>
   fst (flatten h_mutual 2 ''.'' [1, 2] [''b'', ''c'', ''b'']) = Inr [] \<and>
   (\<exists>m. fst (Flatten h_mutual (Some (TreePtr 1))) = Inr (Some m) \<and> fst ` set m = {''a''})"
proof -
  have d1: "deref h_mutual 1 = Some (literal [(''a'', Plain ''test0''), (''b'', TreePtr 2)] ''.'')"
    and d2: "deref h_mutual 2 = Some (literal [(''c'', TreePtr 1)] ''.'')"
    by (simp_all add: deref_def nil_def example_defs)
  have c1: "children h_mutual 1 = [(''a'', Plain ''test0''), (''b'', TreePtr 2)]"
    and c2: "children h_mutual 2 = [(''c'', TreePtr 1)]"
    by (simp_all add: children_def deref_def nil_def example_defs)
  note again = flatten_cycle_safe [OF closed_mutual d2, of "''.''" "[1, 2]" "[''b'', ''c'', ''b'']", THEN conjunct1]
  have visited: "fst (flatten h_mutual 2 ''.'' [1, 2] [''b'', ''c'', ''b'']) = Inr []"
    using again by (elim exE conjE) simp
  have dl: "delimiter_of (literal [(''a'', Plain ''test0''), (''b'', TreePtr 2)] ''.'') = ''.''"
    by (simp add: delimiter_of_def literal_def)
  note top = flatten_cycle_safe [OF closed_mutual d1, of "''.''" "[]" "[]", THEN conjunct2, unfolded dl]
  from top obtain m where M: "fst (Flatten h_mutual (Some (TreePtr 1))) = Inr (Some m) \<and>
      (\<forall>p e. map_of m p = Some e \<longrightarrow> (\<exists>ks. leafpath (children h_mutual) {} 1 ks e \<and> p = Join ks ''.'')) \<and>
      (\<forall>ks e. leafpath (children h_mutual) {} 1 ks e \<longrightarrow> Join ks ''.'' \<in> fst ` set m)" ..
  from M have m: "fst (Flatten h_mutual (Some (TreePtr 1))) = Inr (Some m)"
    by (rule conjunct1)
  from M have sound: "\<forall>p e. map_of m p = Some e \<longrightarrow> (\<exists>ks. leafpath (children h_mutual) {} 1 ks e \<and> p = Join ks ''.'')"
    by (rule conjunct2 [THEN conjunct1])
  from M have complete: "\<forall>ks e. leafpath (children h_mutual) {} 1 ks e \<longrightarrow> Join ks ''.'' \<in> fst ` set m"
    by (rule conjunct2 [THEN conjunct2])
  have paths: "ks = [''a'']" if "leafpath (children h_mutual) {} 1 ks e" for ks e
    using that
    by (auto simp: leafpath_enter leafpath_visited rangepath_Cons rangepath_Nil c1 c2)
  have "leafpath (children h_mutual) {} 1 [''a''] (Plain ''test0'')"
    by (simp add: leafpath_enter rangepath_Cons c1)
  from complete [rule_format, OF this] have a: "''a'' \<in> fst ` set m" by simp
  have "fst ` set m \<subseteq> {''a''}"
  proof
    fix p
    assume "p \<in> fst ` set m"
    then obtain e0 where "(p, e0) \<in> set m" by auto
    from weak_map_of_SomeI [OF this] obtain e where "map_of m p = Some e" by blast
    from sound [rule_format, OF this] obtain ks where ks: "leafpath (children h_mutual) {} 1 ks e" "p = Join ks ''.''"
      by blast
    from paths [OF ks(1)] have "ks = [''a'']" .
    then show "p \<in> {''a''}" using ks(2) by simp
  qed
  with a have "fst ` set m = {''a''}" by blast
  with m visited closed_mutual d2 show ?thesis by simp
qed

text \<open>
  The claim as stated says that the result holds exactly the leaves so reached. A tree that
  contains itself and holds two leaves whose joined paths coincide keeps only one of them:
  the leaf \<open>inner\<close> is reached on the path \<open>a\<close>, \<open>b\<close>, and the result does not hold it when
  \<^verbatim>\<open>range\<close> visits the key \<open>a\<close> before the key \<open>a:b\<close>; in the other order the result does not
  hold the leaf \<open>outer\<close>.
\<close>

theorem flatten_cycle_counterexample:
  "leafpath (children h_cycle_collide) {} 1 [''a'', ''b''] (Plain ''inner'') \<and>
   fst (Flatten h_cycle_collide (Some (TreePtr 1))) = Inr (Some [(''a:b'', Plain ''outer'')]) \<and>
   leafpath (children h_cycle_collide') {} 1 [''a:b''] (Plain ''outer'') \<and>
   fst (Flatten h_cycle_collide' (Some (TreePtr 1))) = Inr (Some [(''a:b'', Plain ''inner'')])"
proof -
  have c1: "children h_cycle_collide 1 = [(''a'', TreePtr 2), (''a:b'', Plain ''outer''), (''self'', TreePtr 1)]"
    and c2: "children h_cycle_collide 2 = [(''b'', Plain ''inner'')]"
    and c1': "children h_cycle_collide' 1 = [(''a:b'', Plain ''outer''), (''self'', TreePtr 1), (''a'', TreePtr 2)]"
    by (simp_all add: children_def deref_def nil_def example_defs h_cycle_collide'_def)
  have "leafpath (children h_cycle_collide) {} 1 [''a'', ''b''] (Plain ''inner'')"
    by (simp add: leafpath_enter rangepath_Cons c1 c2)
  moreover have "fst (Flatten h_cycle_collide (Some (TreePtr 1))) = Inr (Some [(''a:b'', Plain ''outer'')])"
    by (simp add: eval_defs example_defs)
  moreover have "leafpath (children h_cycle_collide') {} 1 [''a:b''] (Plain ''outer'')"
    by (simp add: leafpath_enter rangepath_Cons c1')
  moreover have "fst (Flatten h_cycle_collide' (Some (TreePtr 1))) = Inr (Some [(''a:b'', Plain ''inner'')])"
    by (simp add: eval_defs example_defs h_cycle_collide'_def)
  ultimately show ?thesis by simp
qed

section \<open>The delimiter of the top-level tree\<close>

lemma same_but_nested_delimiters_shape:
  assumes "same_but_nested_delimiters t h h'"
  shows "shape h h'"
proof -
  have r: "rel_option (\<lambda>T T'. Errors T' = Errors T \<and> Formatter T' = Formatter T) (h a) (h' a)" for a
    using assms by (simp add: same_but_nested_delimiters_def)
  have "children h' a = children h a" for a
    using r [of a] by (cases "h a"; cases "h' a") (simp_all add: children_def deref_def)
  moreover have "(deref h' a = None) = (deref h a = None)" for a
    using r [of a] by (cases "h a"; cases "h' a") (simp_all add: deref_def)
  ultimately show ?thesis unfolding shape_def by blast
qed

text \<open>
  C3. \<open>Flatten\<close> on the tree \<open>T\<close> at \<open>t\<close> joins every path with the delimiter of \<open>T\<close> (the
  default where \<open>T\<close> has none): every key of the result is the path of keys to a leaf,
  joined with that delimiter at every level; an entry \<open>ck\<close> of the flattened child under the
  key \<open>k\<close> is found under \<open>k + delimiter + ck\<close>; the delimiters that the trees below \<open>t\<close>
  carry have no effect on the result; and \<^verbatim>\<open>Error()\<close> hands the same map to the formatter.
\<close>

theorem Flatten_top_level_delimiter:
  assumes "closed_heap h" and "deref h t = Some T"
  shows "\<exists>m. fst (Flatten h (Some (TreePtr t))) = Inr (Some m) \<and>
             fst (Tree_Error h t) = Inr (formatter_of T m) \<and>
             (\<forall>p e. map_of m p = Some e \<longrightarrow>
                (\<exists>ks. leafpath (children h) {} t ks e \<and> p = Join ks (delimiter_of T))) \<and>
             (\<forall>k c cm ck ce.
                (k, TreePtr c) \<in> set (children h t) \<and>
                fst (flatten h c (delimiter_of T) [t] [k]) = Inr cm \<and> (ck, ce) \<in> set cm \<longrightarrow>
                k @ delimiter_of T @ ck \<in> fst ` set m) \<and>
             (\<forall>h'. same_but_nested_delimiters t h h' \<longrightarrow>
                fst (Flatten h' (Some (TreePtr t))) = Inr (Some m))"
proof -
  let ?d = "delimiter_of T"
  from flatten_ok(1) [of h t "[]" ?d "[]"] assms
  obtain m where m: "fst (flatten h t ?d [] []) = Inr m" and ok: "flat_ok (children h) ?d {} t m"
    by auto
  have F: "fst (Flatten h (Some (TreePtr t))) = Inr (Some m)"
    using m by (simp add: Flatten_flatten [OF assms(2)])
  have E: "fst (Tree_Error h t) = Inr (formatter_of T m)"
    using m by (simp add: Tree_Error_flatten [OF assms(2)])
  have S: "\<forall>p e. map_of m p = Some e \<longrightarrow> (\<exists>ks. leafpath (children h) {} t ks e \<and> p = Join ks ?d)"
    using flat_ok_sound [OF ok] by blast
  have K: "k @ ?d @ ck \<in> fst ` set m"
    if k: "(k, TreePtr c) \<in> set (children h t)"
      and cm: "fst (flatten h c ?d [t] [k]) = Inr cm" and ck: "(ck, ce) \<in> set cm"
    for k c cm ck ce
  proof -
    have "deref h c \<noteq> None" using assms(1) k by (auto simp: closed_heap_def)
    with flatten_ok(1) [of h c "[t]" ?d "[k]"] assms(1) cm
    have cok: "flat_ok (children h) ?d {t} c cm" by auto
    have "map_of cm ck = Some ce" using ck flat_ok_distinct [OF cok] by simp
    from flat_ok_sound [OF cok this]
    obtain ks where ks: "leafpath (children h) {t} c ks ce" "ck = Join ks ?d" by blast
    have ne: "ks \<noteq> []" using ks(1) by (rule leafpath_nonempty(1))
    have "rangepath (children h) {t} (children h t) (k # ks) ce"
      using k ks(1) by (rule leafpath_rangepath.sub)
    then have "leafpath (children h) {} t (k # ks) ce" by (simp add: leafpath_enter)
    from flat_ok_complete [OF ok this] show ?thesis using ks(2) ne by (simp add: Join_Cons)
  qed
  have I: "fst (Flatten h' (Some (TreePtr t))) = Inr (Some m)"
    if "same_but_nested_delimiters t h h'" for h'
  proof -
    have s: "shape h h'" using that by (rule same_but_nested_delimiters_shape)
    have "h' t = h t" using that by (simp add: same_but_nested_delimiters_def)
    then have d': "deref h' t = Some T" using assms(2) by (auto simp: deref_def split: if_splits)
    have "fst (flatten h' t ?d [] []) = Inr m" using flatten_shape(1) [OF s, of t ?d "[]" "[]"] m by simp
    then show ?thesis by (simp add: Flatten_flatten [OF d'])
  qed
  from F E S K I show ?thesis by blast
qed

theorem Flatten_top_level_delimiter_witness:
  "closed_heap h_multi \<and> same_but_nested_delimiters 1 h_multi h_multi_dots \<and>
   (\<exists>m. fst (Flatten h_multi (Some (TreePtr 1))) = Inr (Some m) \<and>
        fst (Flatten h_multi_dots (Some (TreePtr 1))) = Inr (Some m) \<and>
        fst (Tree_Error h_multi 1) = Inr (SimpleFormatter Error_leaf m) \<and>
        ''c.ca.caa'' \<in> fst ` set m)"
proof -
  let ?T = "literal [(''a'', Plain ''test0''), (''b'', TreePtr 2), (''c'', TreePtr 3)] ''.''"
  have d1: "deref h_multi 1 = Some ?T"
    by (simp add: deref_def nil_def h_multi_def)
  have dl: "delimiter_of ?T = ''.''" and fm: "formatter_of ?T = SimpleFormatter Error_leaf"
    by (simp_all add: delimiter_of_def formatter_of_def literal_def)
  have same: "same_but_nested_delimiters 1 h_multi h_multi_dots"
    by (simp add: same_but_nested_delimiters_def h_multi_def h_multi_dots_def h_empty_def literal_def)
  have c1: "(''c'', TreePtr 3) \<in> set (children h_multi 1)"
    by (simp add: children_def deref_def nil_def h_multi_def literal_def)
  have child: "fst (flatten h_multi 3 ''.'' [1] [''c'']) =
      Inr [(''ca.caa'', Plain ''test3''), (''ca.cab'', Plain ''test4''), (''cb'', Plain ''test5'')]"
    by (simp add: flatten.simps getErrors_def deref_def nil_def h_multi_def h_empty_def literal_def)
  from Flatten_top_level_delimiter [OF closed_multi d1, unfolded dl fm]
  obtain m where M: "fst (Flatten h_multi (Some (TreePtr 1))) = Inr (Some m) \<and>
             fst (Tree_Error h_multi 1) = Inr (SimpleFormatter Error_leaf m) \<and>
             (\<forall>p e. map_of m p = Some e \<longrightarrow>
                (\<exists>ks. leafpath (children h_multi) {} 1 ks e \<and> p = Join ks ''.'')) \<and>
             (\<forall>k c cm ck ce.
                (k, TreePtr c) \<in> set (children h_multi 1) \<and>
                fst (flatten h_multi c ''.'' [1] [k]) = Inr cm \<and> (ck, ce) \<in> set cm \<longrightarrow>
                k @ ''.'' @ ck \<in> fst ` set m) \<and>
             (\<forall>h'. same_but_nested_delimiters 1 h_multi h' \<longrightarrow>
                fst (Flatten h' (Some (TreePtr 1))) = Inr (Some m))" ..
  from M have F: "fst (Flatten h_multi (Some (TreePtr 1))) = Inr (Some m)"
    by (rule conjunct1)
  from M have E: "fst (Tree_Error h_multi 1) = Inr (SimpleFormatter Error_leaf m)"
    by (rule conjunct2 [THEN conjunct1])
  from M have K: "\<forall>k c cm ck ce.
                (k, TreePtr c) \<in> set (children h_multi 1) \<and>
                fst (flatten h_multi c ''.'' [1] [k]) = Inr cm \<and> (ck, ce) \<in> set cm \<longrightarrow>
                k @ ''.'' @ ck \<in> fst ` set m"
    by (rule conjunct2 [THEN conjunct2, THEN conjunct2, THEN conjunct1])
  from M have I: "\<forall>h'. same_but_nested_delimiters 1 h_multi h' \<longrightarrow>
                fst (Flatten h' (Some (TreePtr 1))) = Inr (Some m)"
    by (rule conjunct2 [THEN conjunct2, THEN conjunct2, THEN conjunct2])
  have "(''ca.caa'', Plain ''test3'') \<in> set [(''ca.caa'', Plain ''test3''), (''ca.cab'', Plain ''test4''), (''cb'', Plain ''test5'')]"
    by simp
  with K [rule_format, of "''c''" 3 _ "''ca.caa''" "Plain ''test3''"] c1 child
  have "''c'' @ ''.'' @ ''ca.caa'' \<in> fst ` set m" by blast
  then have k: "''c.ca.caa'' \<in> fst ` set m" by simp
  from I [rule_format, OF same] F E k closed_multi same show ?thesis by blast
qed

section \<open>The trees that one call enters\<close>

lemma flatten_log_erase:
  "fst (flatten_log h tree d visited kp) = flatten h tree d visited kp"
  "fst (flatten_range_log h d visited kp rest acc) = flatten_range h d visited kp rest acc"
proof (induction h tree d visited kp and h d visited kp rest acc rule: flatten_log_flatten_range_log.induct)
  case (1 h tree delimiter visited keyPrefix)
  show ?case
  proof (cases "tree \<in> set visited")
    case True
    then show ?thesis by (simp add: flatten_log.simps flatten.simps)
  next
    case False
    obtain x h1 where g: "getErrors h tree = (x, h1)" by (cases "getErrors h tree")
    show ?thesis
    proof (cases x)
      case (Inl p)
      with False g show ?thesis by (simp add: flatten_log.simps flatten.simps)
    next
      case (Inr errors)
      obtain r log where fr:
        "flatten_range_log h1 delimiter (visited @ [tree]) keyPrefix errors [] = (r, log)"
        by (cases "flatten_range_log h1 delimiter (visited @ [tree]) keyPrefix errors []")
      have "flatten_range h1 delimiter (visited @ [tree]) keyPrefix errors [] = r"
        using "1.IH" [OF False g [symmetric] Inr] fr by simp
      with False g Inr fr show ?thesis by (simp add: flatten_log.simps flatten.simps)
    qed
  qed
next
  case (2 h delimiter visited keyPrefix errorMap)
  show ?case by simp
next
  case (3 h delimiter visited keyPrefix key err rest errorMap)
  show ?case
  proof (cases err)
    case (Plain m)
    have g: "(nil, False) = GetTree (Some err)" using Plain by simp
    from "3.IH"(3) [OF g refl] Plain show ?thesis by simp
  next
    case (TreePtr c)
    have g: "(c, True) = GetTree (Some err)" using TreePtr by simp
    obtain x h1 log where f: "flatten_log h c delimiter visited (keyPrefix @ [key]) = ((x, h1), log)"
      by (cases "flatten_log h c delimiter visited (keyPrefix @ [key])") auto
    have e: "flatten h c delimiter visited (keyPrefix @ [key]) = (x, h1)"
      using "3.IH"(1) [OF g refl] f by simp
    show ?thesis
    proof (cases x)
      case (Inl p)
      with TreePtr f e show ?thesis by simp
    next
      case (Inr childMap)
      let ?acc = "fold (\<lambda>(childKey, childErr). AList.update (key @ delimiter @ childKey) childErr) childMap errorMap"
      obtain r log' where fr: "flatten_range_log h1 delimiter visited keyPrefix rest ?acc = (r, log')"
        by (cases "flatten_range_log h1 delimiter visited keyPrefix rest ?acc")
      have "flatten_range h1 delimiter visited keyPrefix rest ?acc = r"
        using "3.IH"(2) [OF g refl f [symmetric] refl Inr] fr by simp
      with TreePtr f e Inr fr show ?thesis by simp
    qed
  qed
qed

lemma treepath_off: "treepath ch V t ks a \<Longrightarrow> a \<notin> V"
  by (induction rule: treepath.induct) auto

lemma treepath_visited: "t \<in> V \<Longrightarrow> \<not> treepath ch V t ks a"
  by (auto elim: treepath.cases)

lemma treepath_enter:
  "t \<notin> V \<Longrightarrow> treepath ch V t ks a \<longleftrightarrow>
     (ks = [] \<and> a = t) \<or>
     (\<exists>k c ks'. ks = k # ks' \<and> (k, TreePtr c) \<in> set (ch t) \<and> treepath ch (insert t V) c ks' a)"
  by (auto elim: treepath.cases intro: treepath.intros)

lemma log_ok_visited: "t \<in> V \<Longrightarrow> log_ok ch V kp t []"
  by (simp add: log_ok_def treepath_visited)

lemma log_ok_enter:
  assumes t: "t \<notin> V" and r: "range_log_ok ch (insert t V) kp (ch t) log"
  shows "log_ok ch V kp t ((kp, t) # log)"
proof -
  have m: "(kp', a) \<in> set ((kp, t) # log) \<longleftrightarrow> (\<exists>ks. kp' = kp @ ks \<and> treepath ch V t ks a)" for kp' a
  proof -
    have "(kp', a) \<in> set ((kp, t) # log) \<longleftrightarrow>
        (kp' = kp \<and> a = t) \<or>
        (\<exists>k c ks. (k, TreePtr c) \<in> set (ch t) \<and> kp' = kp @ k # ks \<and> treepath ch (insert t V) c ks a)"
      using r by (simp add: range_log_ok_def)
    also have "\<dots> \<longleftrightarrow> (\<exists>ks. kp' = kp @ ks \<and> treepath ch V t ks a)"
      unfolding treepath_enter [OF t] by (rule iffI) (fastforce, force)
    finally show ?thesis .
  qed
  have d: "distinct ((kp, t) # log)" if dk: "distinct_keys ch"
  proof -
    have "distinct (map fst (ch t))" using dk by (simp add: distinct_keys_def)
    with r dk have "distinct log" by (simp add: range_log_ok_def)
    moreover have "(kp, t) \<notin> set log" using r by (simp add: range_log_ok_def)
    ultimately show ?thesis by simp
  qed
  from m d show ?thesis unfolding log_ok_def by blast
qed

lemma range_log_ok_Nil: "range_log_ok ch V kp [] []"
  by (simp add: range_log_ok_def)

lemma range_log_ok_leaf:
  assumes "range_log_ok ch V kp rest log"
  shows "range_log_ok ch V kp ((k, Plain m) # rest) log"
  using assms by (simp add: range_log_ok_def)

lemma range_log_ok_sub:
  assumes c: "log_ok ch V (kp @ [k]) c log" and r: "range_log_ok ch V kp rest log'"
  shows "range_log_ok ch V kp ((k, TreePtr c) # rest) (log @ log')"
proof -
  have m: "(kp', a) \<in> set (log @ log') \<longleftrightarrow>
        (\<exists>k' c' ks. (k', TreePtr c') \<in> set ((k, TreePtr c) # rest) \<and> kp' = kp @ k' # ks \<and>
           treepath ch V c' ks a)" for kp' a
  proof -
    have "(kp', a) \<in> set (log @ log') \<longleftrightarrow>
        (\<exists>ks. kp' = kp @ k # ks \<and> treepath ch V c ks a) \<or>
        (\<exists>k' c' ks. (k', TreePtr c') \<in> set rest \<and> kp' = kp @ k' # ks \<and> treepath ch V c' ks a)"
      using c r by (simp add: log_ok_def range_log_ok_def)
    also have "\<dots> \<longleftrightarrow> (\<exists>k' c' ks. (k', TreePtr c') \<in> set ((k, TreePtr c) # rest) \<and>
        kp' = kp @ k' # ks \<and> treepath ch V c' ks a)"
      by (rule iffI) (fastforce, force)
    finally show ?thesis .
  qed
  have d: "distinct (log @ log')" if dk: "distinct_keys ch" and dr: "distinct (map fst ((k, TreePtr c) # rest))"
  proof -
    have 1: "distinct log" using c dk by (simp add: log_ok_def)
    have 2: "distinct log'" using r dk dr by (simp add: range_log_ok_def)
    have 3: "set log \<inter> set log' = {}"
    proof (rule ccontr)
      assume "set log \<inter> set log' \<noteq> {}"
      then obtain kp' a where i: "(kp', a) \<in> set log" "(kp', a) \<in> set log'" by auto
      from i(1) c obtain ks where 4: "kp' = (kp @ [k]) @ ks" by (auto simp: log_ok_def)
      from i(2) r obtain k' c' ks' where 5: "(k', TreePtr c') \<in> set rest" "kp' = kp @ k' # ks'"
        by (auto simp: range_log_ok_def)
      from 4 5(2) have "k' = k" by simp
      with 5(1) have "k \<in> fst ` set rest" by force
      with dr show False by simp
    qed
    from 1 2 3 show ?thesis by simp
  qed
  from m d show ?thesis unfolding range_log_ok_def by blast
qed

lemma flatten_log_ok:
  "closed_heap h \<Longrightarrow> deref h tree \<noteq> None \<or> tree \<in> set visited \<Longrightarrow>
     log_ok (children h) (set visited) kp tree (snd (flatten_log h tree d visited kp))"
  "closed_heap h \<Longrightarrow> (\<forall>k c. (k, TreePtr c) \<in> set rest \<longrightarrow> deref h c \<noteq> None) \<Longrightarrow>
     range_log_ok (children h) (set visited) kp rest (snd (flatten_range_log h d visited kp rest acc))"
proof (induction h tree d visited kp and h d visited kp rest acc rule: flatten_log_flatten_range_log.induct)
  case (1 h tree delimiter visited keyPrefix)
  show ?case
  proof (cases "tree \<in> set visited")
    case True
    then show ?thesis by (simp add: flatten_log.simps log_ok_visited)
  next
    case False
    with "1.prems" have alloc: "deref h tree \<noteq> None" by simp
    obtain x h1 where g: "getErrors h tree = (x, h1)" by (cases "getErrors h tree")
    have x: "x = Inr (children h tree)" using getErrors_children [OF alloc] g by simp
    have f1: "errors_init h h1" using getErrors_frame [of h tree] g by simp
    have c1: "closed_heap h1" using f1 "1.prems"(1) by (rule closed_heap_init)
    have ch: "children h1 = children h" using f1 by (rule errors_init_children)
    have ptr: "\<forall>k c. (k, TreePtr c) \<in> set (children h tree) \<longrightarrow> deref h1 c \<noteq> None"
      using "1.prems"(1) by (simp add: closed_heap_def errors_init_deref [OF f1])
    obtain r log where fr:
      "flatten_range_log h1 delimiter (visited @ [tree]) keyPrefix (children h tree) [] = (r, log)"
      by (cases "flatten_range_log h1 delimiter (visited @ [tree]) keyPrefix (children h tree) []")
    have "range_log_ok (children h) (insert tree (set visited)) keyPrefix (children h tree) log"
      using "1.IH" [OF False g [symmetric] x c1 ptr] fr by (simp add: ch)
    with False have "log_ok (children h) (set visited) keyPrefix tree ((keyPrefix, tree) # log)"
      by (rule log_ok_enter)
    with False g x fr show ?thesis by (simp add: flatten_log.simps)
  qed
next
  case (2 h delimiter visited keyPrefix errorMap)
  show ?case by (simp add: range_log_ok_Nil)
next
  case (3 h delimiter visited keyPrefix key err rest errorMap)
  have rest: "\<forall>k c. (k, TreePtr c) \<in> set rest \<longrightarrow> deref h c \<noteq> None" using "3.prems"(2) by simp
  show ?case
  proof (cases err)
    case (Plain m)
    have g: "(nil, False) = GetTree (Some err)" using Plain by simp
    have "range_log_ok (children h) (set visited) keyPrefix rest
        (snd (flatten_range_log h delimiter visited keyPrefix rest (AList.update key err errorMap)))"
      using "3.IH"(3) [OF g refl "3.prems"(1) rest] .
    then have "range_log_ok (children h) (set visited) keyPrefix ((key, Plain m) # rest)
        (snd (flatten_range_log h delimiter visited keyPrefix rest (AList.update key err errorMap)))"
      by (rule range_log_ok_leaf)
    with Plain show ?thesis by simp
  next
    case (TreePtr c)
    have g: "(c, True) = GetTree (Some err)" using TreePtr by simp
    have alloc: "deref h c \<noteq> None \<or> c \<in> set visited" using "3.prems"(2) TreePtr by simp
    obtain x h1 log where f: "flatten_log h c delimiter visited (keyPrefix @ [key]) = ((x, h1), log)"
      by (cases "flatten_log h c delimiter visited (keyPrefix @ [key])") auto
    have e: "flatten h c delimiter visited (keyPrefix @ [key]) = (x, h1)"
      using flatten_log_erase(1) [of h c delimiter visited "keyPrefix @ [key]"] f by simp
    from flatten_ok(1) [OF "3.prems"(1) alloc, of delimiter "keyPrefix @ [key]"] e
    obtain cm where cm: "x = Inr cm" by auto
    have lc: "log_ok (children h) (set visited) (keyPrefix @ [key]) c log"
      using "3.IH"(1) [OF g refl "3.prems"(1) alloc] f by simp
    have f1: "errors_init h h1"
      using flatten_frame(1) [of h c delimiter visited "keyPrefix @ [key]"] e by simp
    have c1: "closed_heap h1" using f1 "3.prems"(1) by (rule closed_heap_init)
    have ch: "children h1 = children h" using f1 by (rule errors_init_children)
    have rest1: "\<forall>k c. (k, TreePtr c) \<in> set rest \<longrightarrow> deref h1 c \<noteq> None"
      using rest by (simp add: errors_init_deref [OF f1])
    let ?acc = "fold (\<lambda>(childKey, childErr). AList.update (key @ delimiter @ childKey) childErr) cm errorMap"
    obtain r log' where fr: "flatten_range_log h1 delimiter visited keyPrefix rest ?acc = (r, log')"
      by (cases "flatten_range_log h1 delimiter visited keyPrefix rest ?acc")
    have "range_log_ok (children h) (set visited) keyPrefix rest log'"
      using "3.IH"(2) [OF g refl f [symmetric] refl cm(1) c1 rest1] fr by (simp add: ch)
    with lc have "range_log_ok (children h) (set visited) keyPrefix ((key, TreePtr c) # rest) (log @ log')"
      by (rule range_log_ok_sub)
    with TreePtr f cm(1) fr show ?thesis by simp
  qed
qed

lemma leafpath_treepath_1:
  "leafpath ch V t ks e \<Longrightarrow>
     \<exists>ks' a k m. ks = ks' @ [k] \<and> e = Plain m \<and> treepath ch V t ks' a \<and> (k, Plain m) \<in> set (ch a)"
  "rangepath ch V rest ks e \<Longrightarrow>
     (\<exists>k m. ks = [k] \<and> e = Plain m \<and> (k, Plain m) \<in> set rest) \<or>
     (\<exists>k c ks' a k' m. (k, TreePtr c) \<in> set rest \<and> ks = k # ks' @ [k'] \<and> e = Plain m \<and>
        treepath ch V c ks' a \<and> (k', Plain m) \<in> set (ch a))"
proof (induction rule: leafpath_rangepath.inducts)
  case (enter t V ks e)
  from enter.IH(2) show ?case
  proof
    assume "\<exists>k m. ks = [k] \<and> e = Plain m \<and> (k, Plain m) \<in> set (ch t)"
    then obtain k m where "ks = [] @ [k]" "e = Plain m" "(k, Plain m) \<in> set (ch t)" by auto
    moreover have "treepath ch V t [] t" using enter.hyps(1) by (rule treepath.here)
    ultimately show ?thesis by blast
  next
    assume "\<exists>k c ks' a k' m. (k, TreePtr c) \<in> set (ch t) \<and> ks = k # ks' @ [k'] \<and> e = Plain m \<and>
        treepath ch (insert t V) c ks' a \<and> (k', Plain m) \<in> set (ch a)"
    then obtain k c ks' a k' m where 1: "(k, TreePtr c) \<in> set (ch t)" "ks = (k # ks') @ [k']"
      "e = Plain m" "treepath ch (insert t V) c ks' a" "(k', Plain m) \<in> set (ch a)" by auto
    have "treepath ch V t (k # ks') a" using enter.hyps(1) 1(1) 1(4) by (rule treepath.step)
    with 1 show ?thesis by blast
  qed
next
  case (leaf k m rest V)
  then show ?case by simp
next
  case (sub k c rest V ks e)
  then show ?case by fastforce
qed

lemma leafpath_treepath_2:
  "treepath ch V t ks a \<Longrightarrow> (k, Plain m) \<in> set (ch a) \<Longrightarrow> leafpath ch V t (ks @ [k]) (Plain m)"
proof (induction rule: treepath.induct)
  case (here t V)
  then show ?case by (auto intro: leafpath_rangepath.intros)
next
  case (step t V k' c ks a)
  have "leafpath ch (insert t V) c (ks @ [k]) (Plain m)" using step.IH step.prems .
  with step.hyps(2) have "rangepath ch (insert t V) (ch t) (k' # ks @ [k]) (Plain m)"
    by (rule leafpath_rangepath.sub)
  with step.hyps(1) show ?case by (simp add: leafpath_rangepath.enter)
qed

lemma closed_dag: "closed_heap h_dag"
  by (auto simp: closed_heap_def children_def deref_def nil_def h_dag_def h_empty_def literal_def
      split: if_splits)

text \<open>
  C4, as amended. The log is the log of \<open>flatten\<close> itself: \<open>flatten_log\<close> returns what
  \<open>flatten\<close> returns. A call on a tree that is on the path of trees entered (\<open>visited\<close>)
  returns the empty map at once and enters nothing. On a heap without nil tree pointers,
  a call enters the tree \<open>a\<close> under the key prefix \<open>kp @ ks\<close> exactly when \<open>ks\<close> is a path of
  keys from its own tree to \<open>a\<close> through trees that are pairwise different and not in
  \<open>visited\<close>. So a tree is never entered while it is on the current path, and it is
  entered for every path that reaches it, once per path (the log repeats nothing when the
  keys of every tree are distinct). In particular every entry \<open>(k, TreePtr c)\<close> whose tree
  \<open>c\<close> is not on the path has its own entering of \<open>c\<close>, whether or not \<open>c\<close> is also the
  child under another key, and the leaves of \<open>c\<close> are in the result under \<open>k\<close>. The keys of
  the result are exactly the leaves held by the trees entered, each joined to the path on
  which its tree was entered.
\<close>

theorem entered_once_per_path:
  "fst (flatten_log h tree d visited kp) = flatten h tree d visited kp \<and>
   (tree \<in> set visited \<longrightarrow>
      flatten h tree d visited kp = (Inr [], h) \<and> entered h tree d visited kp = []) \<and>
   (closed_heap h \<and> deref h tree \<noteq> None \<longrightarrow>
      (\<forall>kp' a. (kp', a) \<in> set (entered h tree d visited kp) \<longleftrightarrow>
         (\<exists>ks. kp' = kp @ ks \<and> treepath (children h) (set visited) tree ks a)) \<and>
      (\<forall>kp' a. (kp', a) \<in> set (entered h tree d visited kp) \<longrightarrow> a \<notin> set visited) \<and>
      (distinct_keys (children h) \<longrightarrow> distinct (entered h tree d visited kp)) \<and>
      (\<forall>k c. tree \<notin> set visited \<and> (k, TreePtr c) \<in> set (children h tree) \<and>
         c \<notin> set visited \<and> c \<noteq> tree \<longrightarrow>
         (kp @ [k], c) \<in> set (entered h tree d visited kp)) \<and>
      (\<exists>m. fst (flatten h tree d visited kp) = Inr m \<and>
         (\<forall>p. p \<in> fst ` set m \<longleftrightarrow>
            (\<exists>ks a k msg. (kp @ ks, a) \<in> set (entered h tree d visited kp) \<and>
               (k, Plain msg) \<in> set (children h a) \<and> p = Join (ks @ [k]) d)) \<and>
         (\<forall>k c k' msg. tree \<notin> set visited \<and> (k, TreePtr c) \<in> set (children h tree) \<and>
            c \<notin> set visited \<and> c \<noteq> tree \<and> (k', Plain msg) \<in> set (children h c) \<longrightarrow>
            k @ d @ k' \<in> fst ` set m)))"
proof (intro conjI impI)
  show "fst (flatten_log h tree d visited kp) = flatten h tree d visited kp"
    by (rule flatten_log_erase(1))
next
  assume "tree \<in> set visited"
  then show "flatten h tree d visited kp = (Inr [], h)" "entered h tree d visited kp = []"
    by (simp_all add: flatten.simps flatten_log.simps entered_def)
next
  assume a: "closed_heap h \<and> deref h tree \<noteq> None"
  let ?ch = "children h" and ?V = "set visited" and ?log = "entered h tree d visited kp"
  have ok: "log_ok ?ch ?V kp tree ?log"
    unfolding entered_def using a by (intro flatten_log_ok(1)) simp_all
  have mem: "(kp', b) \<in> set ?log \<longleftrightarrow> (\<exists>ks. kp' = kp @ ks \<and> treepath ?ch ?V tree ks b)" for kp' b
    using ok unfolding log_ok_def by blast
  show "\<forall>kp' a. (kp', a) \<in> set ?log \<longleftrightarrow> (\<exists>ks. kp' = kp @ ks \<and> treepath ?ch ?V tree ks a)"
    by (intro allI) (rule mem)
  show "\<forall>kp' a. (kp', a) \<in> set ?log \<longrightarrow> a \<notin> set visited"
  proof (intro allI impI)
    fix kp' b
    assume "(kp', b) \<in> set ?log"
    then obtain ks where "treepath ?ch ?V tree ks b" unfolding mem by (elim exE conjE)
    then show "b \<notin> set visited" by (rule treepath_off)
  qed
  show "distinct ?log" if "distinct_keys ?ch"
    using ok that unfolding log_ok_def by blast
  have child: "treepath ?ch ?V tree [k] c"
    if "tree \<notin> set visited" "(k, TreePtr c) \<in> set (?ch tree)" "c \<notin> set visited" "c \<noteq> tree" for k c
  proof -
    have "treepath ?ch (insert tree ?V) c [] c" using that(3,4) by (intro treepath.here) simp
    with that(1,2) show ?thesis by (rule treepath.step)
  qed
  have entry: "(kp @ [k], c) \<in> set ?log"
    if "tree \<notin> set visited" "(k, TreePtr c) \<in> set (?ch tree)" "c \<notin> set visited" "c \<noteq> tree" for k c
    unfolding mem using child [OF that] by (intro exI [of _ "[k]"] conjI refl)
  show "\<forall>k c. tree \<notin> set visited \<and> (k, TreePtr c) \<in> set (?ch tree) \<and> c \<notin> set visited \<and> c \<noteq> tree \<longrightarrow>
      (kp @ [k], c) \<in> set ?log"
    by (intro allI impI, elim conjE, rule entry)
  from flatten_ok(1) [of h tree visited d kp] a
  obtain m where m: "fst (flatten h tree d visited kp) = Inr m" and fk: "flat_ok ?ch d ?V tree m"
    by auto
  have keys: "p \<in> fst ` set m \<longleftrightarrow>
      (\<exists>ks b k msg. (kp @ ks, b) \<in> set ?log \<and> (k, Plain msg) \<in> set (?ch b) \<and> p = Join (ks @ [k]) d)" for p
  proof
    assume "p \<in> fst ` set m"
    then obtain e0 where "(p, e0) \<in> set m" by auto
    from weak_map_of_SomeI [OF this] obtain e where "map_of m p = Some e" by blast
    from flat_ok_sound [OF fk this] obtain ks where ks: "leafpath ?ch ?V tree ks e" "p = Join ks d"
      by blast
    from leafpath_treepath_1(1) [OF ks(1)]
    obtain ks' b k msg where 1: "ks = ks' @ [k]" "treepath ?ch ?V tree ks' b"
      "(k, Plain msg) \<in> set (?ch b)"
      by (elim exE conjE)
    from 1(2) have 2: "(kp @ ks', b) \<in> set ?log"
      unfolding mem by (intro exI [of _ ks'] conjI refl)
    have 3: "p = Join (ks' @ [k]) d" using ks(2) 1(1) by simp
    from 2 1(3) 3 show "\<exists>ks b k msg. (kp @ ks, b) \<in> set ?log \<and> (k, Plain msg) \<in> set (?ch b) \<and>
        p = Join (ks @ [k]) d" by (intro exI conjI)
  next
    assume "\<exists>ks b k msg. (kp @ ks, b) \<in> set ?log \<and> (k, Plain msg) \<in> set (?ch b) \<and> p = Join (ks @ [k]) d"
    then obtain ks b k msg where 1: "(kp @ ks, b) \<in> set ?log" "(k, Plain msg) \<in> set (?ch b)"
      "p = Join (ks @ [k]) d" by (elim exE conjE)
    from 1(1) have "treepath ?ch ?V tree ks b" unfolding mem by simp
    from leafpath_treepath_2 [OF this 1(2)] have "leafpath ?ch ?V tree (ks @ [k]) (Plain msg)" .
    from flat_ok_complete [OF fk this] show "p \<in> fst ` set m" using 1(3) by simp
  qed
  have leaves: "k @ d @ k' \<in> fst ` set m"
    if "tree \<notin> set visited" "(k, TreePtr c) \<in> set (?ch tree)" "c \<notin> set visited" "c \<noteq> tree"
      "(k', Plain msg) \<in> set (?ch c)" for k c k' msg
  proof -
    have "(kp @ [k], c) \<in> set ?log" using that(1-4) by (rule entry)
    with that(5) have "Join ([k] @ [k']) d \<in> fst ` set m"
      unfolding keys by (intro exI [of _ "[k]"] exI [of _ c] exI [of _ k'] exI [of _ msg] conjI refl)
    then show ?thesis by simp
  qed
  show "\<exists>m. fst (flatten h tree d visited kp) = Inr m \<and>
         (\<forall>p. p \<in> fst ` set m \<longleftrightarrow>
            (\<exists>ks a k msg. (kp @ ks, a) \<in> set ?log \<and>
               (k, Plain msg) \<in> set (?ch a) \<and> p = Join (ks @ [k]) d)) \<and>
         (\<forall>k c k' msg. tree \<notin> set visited \<and> (k, TreePtr c) \<in> set (?ch tree) \<and>
            c \<notin> set visited \<and> c \<noteq> tree \<and> (k', Plain msg) \<in> set (?ch c) \<longrightarrow>
            k @ d @ k' \<in> fst ` set m)"
  proof (intro exI [of _ m] conjI allI impI)
    show "fst (flatten h tree d visited kp) = Inr m" by (rule m)
  next
    fix p
    show "p \<in> fst ` set m \<longleftrightarrow>
        (\<exists>ks a k msg. (kp @ ks, a) \<in> set ?log \<and> (k, Plain msg) \<in> set (?ch a) \<and> p = Join (ks @ [k]) d)"
      by (rule keys)
  next
    fix k c k' msg
    assume "tree \<notin> set visited \<and> (k, TreePtr c) \<in> set (?ch tree) \<and>
            c \<notin> set visited \<and> c \<noteq> tree \<and> (k', Plain msg) \<in> set (?ch c)"
    then show "k @ d @ k' \<in> fst ` set m" by (elim conjE) (rule leaves)
  qed
qed

theorem entered_once_per_path_witness:
  "closed_heap h_dag \<and> deref h_dag 1 \<noteq> None \<and> distinct_keys (children h_dag) \<and>
   distinct (entered h_dag 1 ''.'' [] []) \<and>
   ([''x''], 2) \<in> set (entered h_dag 1 ''.'' [] []) \<and>
   ([''y''], 2) \<in> set (entered h_dag 1 ''.'' [] []) \<and>
   (\<exists>m. fst (flatten h_dag 1 ''.'' [] []) = Inr m \<and> ''x.l'' \<in> fst ` set m \<and> ''y.l'' \<in> fst ` set m) \<and>
   entered h_mutual 1 ''.'' [1, 2] [''b'', ''c''] = []"
proof -
  have d: "deref h_dag 1 \<noteq> None"
    by (simp add: deref_def nil_def h_dag_def)
  have c1: "children h_dag 1 = [(''x'', TreePtr 2), (''y'', TreePtr 2)]"
    and c2: "children h_dag 2 = [(''l'', Plain ''leaf'')]"
    by (simp_all add: children_def deref_def nil_def h_dag_def h_empty_def literal_def)
  have dk: "distinct_keys (children h_dag)"
    by (simp add: distinct_keys_def children_def deref_def nil_def h_dag_def h_empty_def literal_def)
  note t = entered_once_per_path [of h_dag 1 "''.''" "[]" "[]", THEN conjunct2, THEN conjunct2,
      THEN mp, OF conjI [OF closed_dag d]]
  note dist = t [THEN conjunct2, THEN conjunct2, THEN conjunct1, THEN mp, OF dk]
  note e = t [THEN conjunct2, THEN conjunct2, THEN conjunct2, THEN conjunct1, rule_format]
  note ex = t [THEN conjunct2, THEN conjunct2, THEN conjunct2, THEN conjunct2]
  have x: "([''x''], 2) \<in> set (entered h_dag 1 ''.'' [] [])"
    using e [of "''x''" 2] by (simp add: c1)
  have y: "([''y''], 2) \<in> set (entered h_dag 1 ''.'' [] [])"
    using e [of "''y''" 2] by (simp add: c1)
  from ex have r: "\<exists>m. fst (flatten h_dag 1 ''.'' [] []) = Inr m \<and> ''x.l'' \<in> fst ` set m \<and> ''y.l'' \<in> fst ` set m"
  proof (elim exE conjE)
    fix m
    assume m: "fst (flatten h_dag 1 ''.'' [] []) = Inr m"
      and l: "\<forall>k c k' msg. (1 :: addr) \<notin> set [] \<and> (k, TreePtr c) \<in> set (children h_dag 1) \<and>
            c \<notin> set [] \<and> c \<noteq> 1 \<and> (k', Plain msg) \<in> set (children h_dag c) \<longrightarrow>
            k @ ''.'' @ k' \<in> fst ` set m"
    have xl: "''x.l'' \<in> fst ` set m"
      using l [rule_format, of "''x''" 2 "''l''" "''leaf''"] by (simp add: c1 c2)
    have yl: "''y.l'' \<in> fst ` set m"
      using l [rule_format, of "''y''" 2 "''l''" "''leaf''"] by (simp add: c1 c2)
    from m xl yl show ?thesis by (intro exI conjI)
  qed
  have v: "entered h_mutual 1 ''.'' [1, 2] [''b'', ''c''] = []"
    using entered_once_per_path [of h_mutual 1 "''.''" "[1, 2]" "[''b'', ''c'']",
        THEN conjunct2, THEN conjunct1] by simp
  from closed_dag d dk dist x y r v show ?thesis by (intro conjI)
qed

text \<open>
  The claim as stated also covers a tree that is shared under two keys. The tree at 2 is
  the child under the keys \<open>x\<close> and \<open>y\<close> of the tree at 1; one call of \<open>Flatten\<close> enters it
  twice, and its leaf is in the result under both keys.
\<close>

theorem reentered_counterexample:
  "entered h_dag 1 ''.'' [] [] = [([], 1), ([''x''], 2), ([''y''], 2)] \<and>
   map snd (entered h_dag 1 ''.'' [] []) = [1, 2, 2] \<and>
   fst (Flatten h_dag (Some (TreePtr 1))) = Inr (Some [(''x.l'', Plain ''leaf''), (''y.l'', Plain ''leaf'')])"
  by (simp add: entered_def flatten_log.simps eval_defs h_dag_def h_empty_def literal_def)

section \<open>The heap after a read\<close>

lemma get_frame: "errors_init h (snd (get h tree b key path))"
proof (induction path arbitrary: h tree key)
  case Nil
  obtain x h1 where g: "getErrors h tree = (x, h1)" by (cases "getErrors h tree")
  have "errors_init h h1" using getErrors_frame [of h tree] g by simp
  then show ?case using g
    by (simp add: get.simps [of h tree b key "[]"] split: sum.splits option.splits)
next
  case (Cons p ps)
  obtain x h1 where g: "getErrors h tree = (x, h1)" by (cases "getErrors h tree")
  have f1: "errors_init h h1" using getErrors_frame [of h tree] g by simp
  have rec: "errors_init h h2" if "get h1 c b p ps = (y, h2)" for c y h2
    using errors_init_trans [OF f1 Cons.IH [of h1 c p]] that by simp
  show ?case using g f1 rec
    by (auto simp: get.simps [of h tree b key "p # ps"] split: sum.splits option.splits prod.splits)
qed

lemma lazy_init_refl: "lazy_init r h h"
  by (simp add: lazy_init_def tree_init_def option.rel_refl)

lemma lazy_init_errors:
  assumes "lazy_init r h h1" and "errors_init h1 h2"
  shows "lazy_init r h h2"
  unfolding lazy_init_def
proof
  fix a
  from assms(1) have 1: "rel_option (tree_init (r = Some a)) (h a) (h1 a)"
    by (simp add: lazy_init_def)
  from assms(2) have 2: "h2 a = h1 a \<or> h2 a = map_option init_errors (h1 a)"
    by (simp add: errors_init_def)
  from 1 2 show "rel_option (tree_init (r = Some a)) (h a) (h2 a)"
    by (cases "h a"; cases "h1 a") (auto simp: tree_init_def init_errors_def)
qed

lemma errors_init_lazy: "errors_init h h' \<Longrightarrow> lazy_init r h h'"
  using lazy_init_errors [OF lazy_init_refl] .

lemma getDelimiter_lazy: "lazy_init (Some t) h (snd (getDelimiter h t))"
  by (auto simp: lazy_init_def getDelimiter_def tree_init_def deref_def option.rel_refl
      split: option.splits)

lemma lazy_init_initialised:
  assumes "lazy_init r h h'" and "initialised h"
  shows "h' = h"
proof
  fix a
  from assms(1) have 1: "rel_option (tree_init (r = Some a)) (h a) (h' a)"
    by (simp add: lazy_init_def)
  show "h' a = h a"
  proof (cases "h a")
    case None
    with 1 show ?thesis by (cases "h' a") simp_all
  next
    case (Some T)
    with 1 obtain T' where T': "h' a = Some T'" "tree_init (r = Some a) T T'"
      by (cases "h' a") simp_all
    from assms(2) Some have "Errors T \<noteq> None" "Delimiter T \<noteq> []" by (auto simp: initialised_def)
    with T'(2) have "T' = T" by (auto simp: tree_init_def)
    with T'(1) Some show ?thesis by simp
  qed
qed

lemma Flatten_lazy: "lazy_init (root_of err) h (snd (Flatten h err))"
proof (cases "snd (GetTree err)")
  case False
  then show ?thesis by (auto simp: Flatten_def lazy_init_refl split: prod.splits)
next
  case True
  then obtain t where err: "err = Some (TreePtr t)"
    by (cases err rule: GetTree.cases) simp_all
  obtain x h1 where g: "getDelimiter h t = (x, h1)" by (cases "getDelimiter h t")
  have l1: "lazy_init (Some t) h h1" using getDelimiter_lazy [of t h] g by simp
  have "lazy_init (Some t) h h2" if "flatten h1 t d [] [] = (y, h2)" for d y h2
    using lazy_init_errors [OF l1 flatten_frame(1) [of h1 t d "[]" "[]"]] that by simp
  with l1 g err show ?thesis
    by (auto simp: Flatten_def root_of_def split: sum.splits prod.splits)
qed

lemma Keys_lazy: "lazy_init (root_of err) h (snd (Keys h err))"
proof (cases "snd (GetTree err)")
  case False
  then show ?thesis by (auto simp: Keys_def lazy_init_refl split: prod.splits)
next
  case True
  then obtain t where err: "err = Some (TreePtr t)"
    by (cases err rule: GetTree.cases) simp_all
  obtain x h1 where g: "getDelimiter h t = (x, h1)" by (cases "getDelimiter h t")
  have l1: "lazy_init (Some t) h h1" using getDelimiter_lazy [of t h] g by simp
  have "lazy_init (Some t) h h2" if "flatten h1 t d [] [] = (y, h2)" for d y h2
    using lazy_init_errors [OF l1 flatten_frame(1) [of h1 t d "[]" "[]"]] that by simp
  with l1 g err show ?thesis
    by (auto simp: Keys_def root_of_def split: sum.splits prod.splits)
qed

lemma Get_lazy: "lazy_init None h (snd (Get h err key path))"
  by (cases err rule: GetTree.cases) (simp_all add: Get_def lazy_init_refl errors_init_lazy get_frame)

lemma GetAny_lazy: "lazy_init None h (snd (GetAny h err key path))"
  by (cases err rule: GetTree.cases) (simp_all add: GetAny_def lazy_init_refl errors_init_lazy get_frame)

text \<open>
  C5, as amended. \<open>Flatten\<close>, \<open>Keys\<close>, \<open>Get\<close> and \<open>GetAny\<close> change a tree only by lazy
  initialisation: no tree is allocated or lost, no entry and no formatter changes, an
  absent map of entries may become the empty map, and \<open>Flatten\<close> and \<open>Keys\<close> replace an empty
  delimiter of the tree they are called on by the default one. On a heap in which every
  tree has a map of entries and a delimiter, the four calls leave the heap as it is.
\<close>

theorem reads_only_initialise:
  "lazy_init (root_of err) h (snd (Flatten h err)) \<and>
   lazy_init (root_of err) h (snd (Keys h err)) \<and>
   lazy_init None h (snd (Get h err key path)) \<and>
   lazy_init None h (snd (GetAny h err key path)) \<and>
   (initialised h \<longrightarrow>
      snd (Flatten h err) = h \<and> snd (Keys h err) = h \<and>
      snd (Get h err key path) = h \<and> snd (GetAny h err key path) = h)"
  using Flatten_lazy [of err h] Keys_lazy [of err h] Get_lazy [of h err key path]
    GetAny_lazy [of h err key path]
  by (simp add: lazy_init_initialised)

theorem reads_only_initialise_witness:
  "initialised h_keys \<and>
   snd (Flatten h_keys (Some (TreePtr 1))) = h_keys \<and> snd (Keys h_keys (Some (TreePtr 1))) = h_keys \<and>
   snd (Get h_keys (Some (TreePtr 1)) ''c'' [''a'']) = h_keys \<and>
   snd (GetAny h_keys (Some (TreePtr 1)) ''c'' [''zz'']) = h_keys"
proof -
  have i: "initialised h_keys"
    by (simp add: initialised_def example_defs)
  show ?thesis
    using reads_only_initialise [of "Some (TreePtr 1)" h_keys "''c''" "[''a'']"]
      reads_only_initialise [of "Some (TreePtr 1)" h_keys "''c''" "[''zz'']"] i
    by simp
qed

text \<open>
  The claim as stated fails on the zero value \<^verbatim>\<open>&Tree{}\<close>: after \<open>Flatten\<close> or \<open>Keys\<close> its map
  of entries is no longer nil and its delimiter is \<open>:\<close>; after \<open>Get\<close> or \<open>GetAny\<close> its map of
  entries is no longer nil.
\<close>

theorem reads_mutate_counterexample:
  "h_zero 1 = Some \<lparr>Errors = None, Delimiter = [], Formatter = None\<rparr> \<and>
   snd (Flatten h_zero (Some (TreePtr 1))) 1 = Some \<lparr>Errors = Some [], Delimiter = '':'', Formatter = None\<rparr> \<and>
   snd (Keys h_zero (Some (TreePtr 1))) 1 = Some \<lparr>Errors = Some [], Delimiter = '':'', Formatter = None\<rparr> \<and>
   snd (Get h_zero (Some (TreePtr 1)) ''a'' []) 1 = Some \<lparr>Errors = Some [], Delimiter = [], Formatter = None\<rparr> \<and>
   snd (GetAny h_zero (Some (TreePtr 1)) ''a'' []) 1 = Some \<lparr>Errors = Some [], Delimiter = [], Formatter = None\<rparr>"
  by (simp add: eval_defs Get_def GetAny_def get.simps h_zero_def h_empty_def)

section \<open>Get and GetAny\<close>

lemma get_found:
  assumes "closed_heap h" and "deref h t \<noteq> None"
  shows "fst (get h t b key path) =
     Inr (if b then (if found (children h) t (key # path) = [] then None
                     else Some (last (found (children h) t (key # path))))
          else (if length (found (children h) t (key # path)) = length (key # path)
                then Some (last (found (children h) t (key # path))) else None))"
  using assms
proof (induction path arbitrary: h t key)
  case Nil
  from getErrors_alloc [OF Nil.prems(2)] obtain h1 where
    g: "getErrors h t = (Inr (children h t), h1)" by blast
  show ?case
  proof (cases "map_of (children h t) key")
    case None
    with g show ?thesis by (simp add: get.simps [of h t b key "[]"])
  next
    case (Some child)
    with g show ?thesis by (cases child) (simp_all add: get.simps [of h t b key "[]"])
  qed
next
  case (Cons p ps)
  from getErrors_alloc [OF Cons.prems(2)] obtain h1 where
    g: "getErrors h t = (Inr (children h t), h1)" and f1: "errors_init h h1" by blast
  have c1: "closed_heap h1" using f1 Cons.prems(1) by (rule closed_heap_init)
  have ch: "children h1 = children h" using f1 by (rule errors_init_children)
  show ?case
  proof (cases "map_of (children h t) key")
    case None
    with g show ?thesis by (simp add: get.simps [of h t b key "p # ps"])
  next
    case (Some child)
    show ?thesis
    proof (cases child)
      case (Plain m)
      with g Some show ?thesis by (simp add: get.simps [of h t b key "p # ps"])
    next
      case (TreePtr c)
      have "(key, TreePtr c) \<in> set (children h t)" using Some TreePtr by (simp add: map_of_SomeD)
      then have "deref h c \<noteq> None" using Cons.prems(1) by (auto simp: closed_heap_def)
      then have d1: "deref h1 c \<noteq> None" by (simp add: errors_init_deref [OF f1])
      obtain y h2 where r: "get h1 c b p ps = (y, h2)" by (cases "get h1 c b p ps")
      let ?f = "found (children h) c (p # ps)"
      have y: "y = Inr (if b then (if ?f = [] then None else Some (last ?f))
                        else (if length ?f = length (p # ps) then Some (last ?f) else None))"
        using Cons.IH [OF c1 d1, of p] r by (simp only: ch fst_conv)
      have fd: "found (children h) t (key # p # ps) = child # ?f"
        using Some TreePtr by simp
      have ne: "length ?f = length (p # ps) \<Longrightarrow> ?f \<noteq> []" by auto
      show ?thesis
        unfolding fd using g Some TreePtr r y ne
        by (simp add: get.simps [of h t b key "p # ps"])
    qed
  qed
qed

text \<open>
  C8. \<open>GetAny\<close> returns \<open>err\<close> itself, and changes nothing, when \<open>err\<close> is not a tree. On a
  tree it returns the last value found on the path: the value at the end of the path when
  the path can be followed to its end, and otherwise the value found before the step that
  cannot be made. It returns nil exactly when the first key is absent. (Hypothesis: no
  entry is a nil tree pointer; the code would panic on one.)
\<close>

theorem GetAny_most_specific:
  "(\<not> snd (GetTree err) \<longrightarrow> GetAny h err key path = (Inr err, h)) \<and>
   (closed_heap h \<and> err = Some (TreePtr t) \<and> deref h t \<noteq> None \<longrightarrow>
      fst (GetAny h err key path) =
        Inr (if found (children h) t (key # path) = [] then None
             else Some (last (found (children h) t (key # path)))) \<and>
      (found (children h) t (key # path) = [] \<longleftrightarrow> map_of (children h t) key = None))"
proof (intro conjI impI)
  assume "\<not> snd (GetTree err)"
  then show "GetAny h err key path = (Inr err, h)"
    by (auto simp: GetAny_def split: prod.splits)
next
  assume a: "closed_heap h \<and> err = Some (TreePtr t) \<and> deref h t \<noteq> None"
  then show "fst (GetAny h err key path) =
        Inr (if found (children h) t (key # path) = [] then None
             else Some (last (found (children h) t (key # path))))"
    using get_found [of h t True key path] by (simp add: GetAny_def)
  show "found (children h) t (key # path) = [] \<longleftrightarrow> map_of (children h t) key = None"
    by (simp split: option.splits)
qed

theorem GetAny_most_specific_witness:
  "GetAny h_nested (Some (Plain ''test'')) ''test'' [] = (Inr (Some (Plain ''test'')), h_nested) \<and>
   fst (GetAny h_nested (Some (TreePtr 1)) ''b'' []) = Inr None \<and>
   fst (GetAny h_nested (Some (TreePtr 1)) ''a'' []) = Inr (Some (Plain ''test0'')) \<and>
   fst (GetAny h_nested (Some (TreePtr 1)) ''c'' [''b'']) = Inr (Some (TreePtr 2)) \<and>
   fst (GetAny h_nested (Some (TreePtr 1)) ''c'' [''a'']) = Inr (Some (Plain ''test1'')) \<and>
   fst (GetAny h_nested (Some (TreePtr 1)) ''a'' [''b'']) = Inr (Some (Plain ''test0''))"
proof -
  have d: "deref h_nested 1 \<noteq> None"
    by (simp add: deref_def nil_def example_defs)
  have c1: "children h_nested 1 = [(''a'', Plain ''test0''), (''c'', TreePtr 2)]"
    and c2: "children h_nested 2 = [(''a'', Plain ''test1'')]"
    by (simp_all add: children_def deref_def nil_def example_defs)
  note t = GetAny_most_specific [where h = h_nested and t = 1]
  show ?thesis
    using t [of "Some (Plain ''test'')" "''test''" "[]"]
      t [of "Some (TreePtr 1)" "''b''" "[]"] t [of "Some (TreePtr 1)" "''a''" "[]"]
      t [of "Some (TreePtr 1)" "''c''" "[''b'']"] t [of "Some (TreePtr 1)" "''c''" "[''a'']"]
      t [of "Some (TreePtr 1)" "''a''" "[''b'']"] closed_nested d
    by (simp add: c1 c2)
qed

section \<open>The simple formatter\<close>

lemma map_insort_key: "map f (insort_key f x xs) = insort (f x) (map f xs)"
  by (induction xs) simp_all

lemma map_sort_key: "map f (sort_key f xs) = sort (map f xs)"
  by (induction xs) (simp_all add: map_insort_key)

lemma fold_update_index:
  "j + length ks \<le> length w \<Longrightarrow>
   fold (\<lambda>(i, key) w. w[i := f key]) (enumerate j ks) w = take j w @ map f ks @ drop (j + length ks) w"
proof (induction ks arbitrary: j w)
  case Nil
  then show ?case by simp
next
  case (Cons k ks)
  have l: "Suc j + length ks \<le> length (w[j := f k])" using Cons.prems by simp
  have j: "j < length w" using Cons.prems by simp
  have "fold (\<lambda>(i, key) w. w[i := f key]) (enumerate j (k # ks)) w =
        fold (\<lambda>(i, key) w. w[i := f key]) (enumerate (Suc j) ks) (w[j := f k])"
    by simp
  also have "\<dots> = take (Suc j) (w[j := f k]) @ map f ks @ drop (Suc j + length ks) (w[j := f k])"
    using l by (rule Cons.IH)
  also have "take (Suc j) (w[j := f k]) = take j w @ [f k]"
    using j by (simp add: take_Suc_conv_app_nth)
  also have "drop (Suc j + length ks) (w[j := f k]) = drop (j + length (k # ks)) w"
    by simp
  finally show ?case by simp
qed

lemma Sprintf_d_decimal: "decimal_value (Sprintf_d n) = n"
proof (induction n rule: Sprintf_d.induct)
  case (1 n)
  show ?case
  proof (cases "n < 10")
    case True
    then show ?thesis by (simp add: Sprintf_d.simps [of n] decimal_value_def)
  next
    case False
    have "n mod 10 < 10" by simp
    then have "(48 + n mod 10) mod 256 = 48 + n mod 10" by simp
    with False "1.IH" show ?thesis
      by (simp add: Sprintf_d.simps [of n] decimal_value_def)
  qed
qed

text \<open>
  C9. For a map (an association list with distinct keys) \<open>SimpleFormatter\<close> returns the
  number of entries in decimal, \<open>error\<close> with an \<open>s\<close> unless the number is 1, \<open>occurred:\<close> and
  an empty line, and then one line \<open>* path: message\<close> per entry, the entries sorted by
  path and the lines joined by single newlines. \<open>sort_key fst\<close> sorts the entries by their
  paths; the digits are those of the number of entries.
\<close>

theorem SimpleFormatter_renders:
  assumes "distinct (map fst errorMap)"
  shows "SimpleFormatter msg errorMap =
           Sprintf_d (length errorMap) @ '' error'' @ (if length errorMap = 1 then [] else ''s'') @
           '' occurred:'' @ [nl, nl] @
           Join (map (\<lambda>(path, e). ''* '' @ path @ '': '' @ msg e) (sort_key fst errorMap)) [nl] \<and>
         sorted (map fst (sort_key fst errorMap)) \<and> set (sort_key fst errorMap) = set errorMap \<and>
         length (sort_key fst errorMap) = length errorMap \<and>
         decimal_value (Sprintf_d (length errorMap)) = length errorMap"
proof -
  let ?line = "\<lambda>key. ''* '' @ key @ '': '' @ (case map_of errorMap key of Some e \<Rightarrow> msg e | None \<Rightarrow> [])"
  let ?keys = "sort (map fst errorMap)"
  have keys: "fold (\<lambda>(key, _) keys. keys @ [key]) errorMap [] = map fst errorMap"
    by (simp add: fold_keys)
  have "fold (\<lambda>(i, key) w. w[i := ?line key]) (enumerate 0 ?keys) (replicate (length errorMap) []) =
        map ?line ?keys"
    using fold_update_index [of 0 ?keys "replicate (length errorMap) []" ?line] by simp
  also have "\<dots> = map (?line \<circ> fst) (sort_key fst errorMap)"
    by (simp add: map_sort_key [symmetric])
  also have "\<dots> = map (\<lambda>(path, e). ''* '' @ path @ '': '' @ msg e) (sort_key fst errorMap)"
  proof (rule map_cong [OF refl])
    fix x
    assume "x \<in> set (sort_key fst errorMap)"
    then have "x \<in> set errorMap" by simp
    then have "map_of errorMap (fst x) = Some (snd x)" using assms by simp
    then show "(?line \<circ> fst) x = (\<lambda>(path, e). ''* '' @ path @ '': '' @ msg e) x"
      by (simp add: case_prod_beta)
  qed
  finally have w: "fold (\<lambda>(i, key) w. w[i := ?line key]) (enumerate 0 ?keys) (replicate (length errorMap) []) =
        map (\<lambda>(path, e). ''* '' @ path @ '': '' @ msg e) (sort_key fst errorMap)" .
  have "SimpleFormatter msg errorMap =
           Sprintf_d (length errorMap) @ '' error'' @ (if length errorMap = 1 then [] else ''s'') @
           '' occurred:'' @ [nl, nl] @
           Join (map (\<lambda>(path, e). ''* '' @ path @ '': '' @ msg e) (sort_key fst errorMap)) [nl]"
    unfolding SimpleFormatter_def Let_def keys w by simp
  then show ?thesis by (simp add: sorted_sort_key Sprintf_d_decimal)
qed

theorem SimpleFormatter_renders_witness:
  "SimpleFormatter Error_leaf [(''key'', Plain ''value'')] =
     ''1 error occurred:'' @ [nl, nl] @ ''* key: value'' \<and>
   SimpleFormatter Error_leaf [(''b'', Plain ''a''), (''c'', Plain ''b''), (''a'', Plain ''c'')] =
     ''3 errors occurred:'' @ [nl, nl] @ ''* a: c'' @ [nl] @ ''* b: a'' @ [nl] @ ''* c: b''"
proof -
  let ?m1 = "[(''key'', Plain ''value'')]"
  let ?m3 = "[(''b'', Plain ''a''), (''c'', Plain ''b''), (''a'', Plain ''c'')]"
  have d1: "distinct (map fst ?m1)" and d3: "distinct (map fst ?m3)" by simp_all
  have r1: "Sprintf_d (length ?m1) @ '' error'' @ (if length ?m1 = 1 then [] else ''s'') @
           '' occurred:'' @ [nl, nl] @
           Join (map (\<lambda>(path, e). ''* '' @ path @ '': '' @ Error_leaf e) (sort_key fst ?m1)) [nl] =
           ''1 error occurred:'' @ [nl, nl] @ ''* key: value''"
    by code_simp
  have r3: "Sprintf_d (length ?m3) @ '' error'' @ (if length ?m3 = 1 then [] else ''s'') @
           '' occurred:'' @ [nl, nl] @
           Join (map (\<lambda>(path, e). ''* '' @ path @ '': '' @ Error_leaf e) (sort_key fst ?m3)) [nl] =
           ''3 errors occurred:'' @ [nl, nl] @ ''* a: c'' @ [nl] @ ''* b: a'' @ [nl] @ ''* c: b''"
    by code_simp
  from SimpleFormatter_renders [OF d1, of Error_leaf, THEN conjunct1] r1
  have 1: "SimpleFormatter Error_leaf ?m1 = ''1 error occurred:'' @ [nl, nl] @ ''* key: value''"
    by (rule trans)
  from SimpleFormatter_renders [OF d3, of Error_leaf, THEN conjunct1] r3
  have 3: "SimpleFormatter Error_leaf ?m3 =
      ''3 errors occurred:'' @ [nl, nl] @ ''* a: c'' @ [nl] @ ''* b: a'' @ [nl] @ ''* c: b''"
    by (rule trans)
  from 1 3 show ?thesis by (rule conjI)
qed

section \<open>Colliding paths\<close>

text \<open>
  C10. The tree holds a leaf under the key \<open>a:b\<close> and, under the key \<open>a\<close>, a tree with a leaf
  under \<open>b\<close>; its delimiter is \<open>:\<close>. Two leaves can be reached, and \<open>Flatten\<close> returns one
  entry: both leaves have the full path \<open>a:b\<close>, and the one visited later replaces the
  other. This holds in both orders in which \<^verbatim>\<open>range\<close> can visit the two entries.
\<close>

theorem Flatten_key_collision:
  "{(ks, e). leafpath (children h_collide) {} 1 ks e} =
     {([''a:b''], Plain ''outer''), ([''a'', ''b''], Plain ''inner'')} \<and>
   fst (Flatten h_collide (Some (TreePtr 1))) = Inr (Some [(''a:b'', Plain ''inner'')]) \<and>
   {(ks, e). leafpath (children h_collide') {} 1 ks e} =
     {([''a:b''], Plain ''outer''), ([''a'', ''b''], Plain ''inner'')} \<and>
   fst (Flatten h_collide' (Some (TreePtr 1))) = Inr (Some [(''a:b'', Plain ''outer'')])"
proof -
  have c1: "children h_collide 1 = [(''a:b'', Plain ''outer''), (''a'', TreePtr 2)]"
    and c2: "children h_collide 2 = [(''b'', Plain ''inner'')]"
    and c1': "children h_collide' 1 = [(''a'', TreePtr 2), (''a:b'', Plain ''outer'')]"
    and c2': "children h_collide' 2 = [(''b'', Plain ''inner'')]"
    by (simp_all add: children_def deref_def nil_def h_collide_def h_collide'_def h_empty_def literal_def)
  have l: "leafpath (children h_collide) {} 1 ks e \<longleftrightarrow>
      (ks, e) = ([''a:b''], Plain ''outer'') \<or> (ks, e) = ([''a'', ''b''], Plain ''inner'')" for ks e
    by (auto simp: leafpath_enter rangepath_Cons rangepath_Nil c1 c2)
  have l': "leafpath (children h_collide') {} 1 ks e \<longleftrightarrow>
      (ks, e) = ([''a:b''], Plain ''outer'') \<or> (ks, e) = ([''a'', ''b''], Plain ''inner'')" for ks e
    by (auto simp: leafpath_enter rangepath_Cons rangepath_Nil c1' c2')
  have f: "fst (Flatten h_collide (Some (TreePtr 1))) = Inr (Some [(''a:b'', Plain ''inner'')])"
    by (simp add: eval_defs h_collide_def h_empty_def literal_def)
  have f': "fst (Flatten h_collide' (Some (TreePtr 1))) = Inr (Some [(''a:b'', Plain ''outer'')])"
    by (simp add: eval_defs h_collide'_def h_empty_def literal_def)
  from l l' f f' show ?thesis by auto
qed

end
